theory Spec2Isabelle
  imports Main "HOL-Library.Word" "HOL-Library.Multiset"
begin

section \<open>libfs: glue code common to all file system servers\<close>

text \<open>
  A shallow embedding of \<^verbatim>\<open>fs_register\<close> and \<^verbatim>\<open>libfs_lookup\<close>
  (the libfs part of \<^verbatim>\<open>src/uspace/lib/ui/src/window.c\<close>, lines 1233-1507).

  The file system backend is reached only through the function pointers of
  \<^verbatim>\<open>libfs_ops_t\<close>; the backend's node storage is a state of an arbitrary type
  \<open>'s\<close> that every mutating operation takes and returns.  Beside the backend state the
  model keeps a chronological trace of the mutating backend calls and of the IPC
  answers, so that the order and the number of these effects can be stated.
\<close>

subsection \<open>Data\<close>

text \<open>
  Node pointers (\<^verbatim>\<open>fs_node_t *\<close>) are \<open>node option\<close>, \<open>None\<close> being \<^verbatim>\<open>NULL\<close>.
  Handles, indices, sizes and link counts are only passed through by the code.
\<close>

type_synonym node = nat
type_synonym dev_handle_t = nat
type_synonym fs_handle_t = nat
type_synonym fs_index_t = nat

text \<open>
  Modelled from the spec: the header with the lookup flag constants is not part of the
  sources.  The spec describes the flag word as a bitset over the seven names below; the
  code tests it with \<^verbatim>\<open>lflag & L_X\<close>, which for distinct single-bit constants is
  membership, and \<^verbatim>\<open>(lflag & (A | B)) == (A | B)\<close>, which is containing both.
\<close>

datatype lflag_bit =
  L_FILE | L_DIRECTORY | L_EXCLUSIVE | L_CREATE | L_LINK | L_UNLINK | L_PARENT

type_synonym lflags = "lflag_bit set"

text \<open>
  Modelled from the spec: the error numbers of \<^verbatim>\<open>errno.h\<close> are not part of the
  sources.  The named codes are the ones the code mentions (pairwise distinct, \<open>EOK\<close>
  being zero); \<open>ECODE n\<close> is any other status a backend operation or an IPC call reports.
\<close>

datatype errno =
  EOK | ENOENT | ENOMEM | ENAMETOOLONG | ENOTDIR | ENOSPC | EEXIST | EISDIR | ECODE int

text \<open>
  The constants \<^verbatim>\<open>PLB_SIZE\<close> and \<^verbatim>\<open>NAME_MAX\<close> are defined in headers that are not
  part of the sources; they are parameters of the model.
\<close>

record limits =
  PLB_SIZE :: "32 word"
  NAME_MAX :: nat

text \<open>The five arguments \<^verbatim>\<open>libfs_lookup\<close> reads from the \<^verbatim>\<open>VFS_LOOKUP\<close> request.\<close>

record request =
  req_next :: "32 word"
  req_last :: "32 word"
  req_dev :: dev_handle_t
  req_lflag :: lflags
  req_index :: fs_index_t

text \<open>
  The effects of one lookup, in the order in which they happen: the answers sent to the
  request (\<^verbatim>\<open>ipc_answer_0\<close>, \<^verbatim>\<open>ipc_answer_5\<close>; all of them go to the one
  \<^verbatim>\<open>rid\<close>) and the calls of the backend operations that acquire, release or change
  nodes, each with its arguments and its result.
\<close>

datatype event =
    Answer0 errno
  | Answer5 errno fs_handle_t dev_handle_t fs_index_t nat nat
  | RootGet dev_handle_t "node option"
  | Match "node option" string "node option"
  | Create dev_handle_t lflags "node option"
  | NodeGet dev_handle_t fs_index_t "node option"
  | Link "node option" "node option" string errno
  | Unlink "node option" "node option" errno
  | Destroy "node option"
  | NodePut "node option"

text \<open>
  \<^verbatim>\<open>libfs_ops_t\<close>.  The operations that hand out, release or change nodes return the
  new backend state; the accessors read it.  \<^verbatim>\<open>plb_get_char\<close> reads the path lookup
  buffer, which is read-only for the backend.
\<close>

record 's libfs_ops =
  match :: "node option \<Rightarrow> string \<Rightarrow> 's \<Rightarrow> node option \<times> 's"
  node_get :: "dev_handle_t \<Rightarrow> fs_index_t \<Rightarrow> 's \<Rightarrow> node option \<times> 's"
  node_put :: "node option \<Rightarrow> 's \<Rightarrow> 's"
  create :: "dev_handle_t \<Rightarrow> lflags \<Rightarrow> 's \<Rightarrow> node option \<times> 's"
  destroy :: "node option \<Rightarrow> 's \<Rightarrow> errno \<times> 's"
  link :: "node option \<Rightarrow> node option \<Rightarrow> string \<Rightarrow> 's \<Rightarrow> errno \<times> 's"
  unlink :: "node option \<Rightarrow> node option \<Rightarrow> 's \<Rightarrow> errno \<times> 's"
  index_get :: "node option \<Rightarrow> 's \<Rightarrow> fs_index_t"
  size_get :: "node option \<Rightarrow> 's \<Rightarrow> nat"
  lnkcnt_get :: "node option \<Rightarrow> 's \<Rightarrow> nat"
  has_children :: "node option \<Rightarrow> 's \<Rightarrow> bool"
  root_get :: "dev_handle_t \<Rightarrow> 's \<Rightarrow> node option \<times> 's"
  plb_get_char :: "32 word \<Rightarrow> char"
  is_directory :: "node option \<Rightarrow> 's \<Rightarrow> bool"
  is_file :: "node option \<Rightarrow> 's \<Rightarrow> bool"

text \<open>The local variables of \<^verbatim>\<open>libfs_lookup\<close> (\<open>nxt\<close> is \<^verbatim>\<open>next\<close>), the backend state and
  the trace.\<close>

record 's engine =
  nxt :: "32 word"
  par :: "node option"
  cur :: "node option"
  tmp :: "node option"
  fs :: 's
  trace :: "event list"

subsection \<open>Effects\<close>

definition emit :: "event \<Rightarrow> 's engine \<Rightarrow> 's engine" where
  "emit e st = st\<lparr>trace := trace st @ [e]\<rparr>"

definition ipc_answer_0 :: "errno \<Rightarrow> 's engine \<Rightarrow> 's engine" where
  "ipc_answer_0 rc st = emit (Answer0 rc) st"

definition ipc_answer_5 ::
  "errno \<Rightarrow> fs_handle_t \<Rightarrow> dev_handle_t \<Rightarrow> fs_index_t \<Rightarrow> nat \<Rightarrow> nat \<Rightarrow> 's engine \<Rightarrow> 's engine" where
  "ipc_answer_5 rc a1 a2 a3 a4 a5 st = emit (Answer5 rc a1 a2 a3 a4 a5) st"

definition do_node_put :: "'s libfs_ops \<Rightarrow> node option \<Rightarrow> 's engine \<Rightarrow> 's engine" where
  "do_node_put ops n st = emit (NodePut n) (st\<lparr>fs := node_put ops n (fs st)\<rparr>)"

text \<open>\<^verbatim>\<open>if (p) ops->node_put(p);\<close>\<close>

definition put_if :: "'s libfs_ops \<Rightarrow> node option \<Rightarrow> 's engine \<Rightarrow> 's engine" where
  "put_if ops p st = (if p \<noteq> None then do_node_put ops p st else st)"

subsection \<open>Collecting a component\<close>

text \<open>
  The inner loop of lines 1331-1340.  \<open>component\<close> is \<^verbatim>\<open>component[0 .. len)\<close> and
  \<^verbatim>\<open>len\<close> is its length.  \<^verbatim>\<open>component\<close> has \<^verbatim>\<open>NAME_MAX + 1\<close> elements; a store
  beyond them has no defined behaviour and is the result \<open>Overrun\<close>.  With
  \<^verbatim>\<open>NAME_MAX\<close> at least 1, which the model is meant for, the test
  \<^verbatim>\<open>len + 1 == NAME_MAX\<close> stops the loop before \<^verbatim>\<open>len\<close>, which starts at 0, can
  reach \<^verbatim>\<open>NAME_MAX\<close>, so no store of the loop and not the terminating
  \<^verbatim>\<open>component[len] = 0\<close> after it is out of bounds.
\<close>

datatype collected = Collected "32 word" string | TooLong | Excess | Overrun

function collect ::
  "(32 word \<Rightarrow> char) \<Rightarrow> nat \<Rightarrow> 32 word \<Rightarrow> 32 word \<Rightarrow> string \<Rightarrow> collected" where
  "collect g name_max lst pos component =
     (if pos \<le> lst \<and> g pos \<noteq> CHR ''/'' then
        (if length component + 1 = name_max then TooLong
         else if name_max < length component then Overrun
         else collect g name_max lst (pos + 1) (component @ [g pos]))
      else Collected pos component)"
  by pat_completeness auto
termination
  by (relation "measure (\<lambda>(g, name_max, lst, pos, component). name_max + 1 - length component)") auto

text \<open>
  The loop of lines 1418-1432, which collects the one remaining component and stops at
  a separator (\<open>Excess\<close>: more than one component).
\<close>

function collect_last ::
  "(32 word \<Rightarrow> char) \<Rightarrow> nat \<Rightarrow> 32 word \<Rightarrow> 32 word \<Rightarrow> string \<Rightarrow> collected" where
  "collect_last g name_max lst pos component =
     (if pos \<le> lst then
        (if g pos = CHR ''/'' then Excess
         else if length component + 1 = name_max then TooLong
         else if name_max < length component then Overrun
         else collect_last g name_max lst (pos + 1) (component @ [g pos]))
      else Collected pos component)"
  by pat_completeness auto
termination
  by (relation "measure (\<lambda>(g, name_max, lst, pos, component). name_max + 1 - length component)") auto

declare collect.simps [simp del] collect_last.simps [simp del]

subsection \<open>Creating or resolving a node and linking it\<close>

text \<open>
  Lines 1363-1389 and, word for word the same, lines 1436-1460: obtain \<^verbatim>\<open>fn\<close> from
  \<^verbatim>\<open>create\<close> (if \<^verbatim>\<open>L_CREATE\<close>) or else from \<^verbatim>\<open>node_get\<close>, link it under
  \<^verbatim>\<open>cur\<close> and answer.
\<close>

definition link_new ::
  "'s libfs_ops \<Rightarrow> fs_handle_t \<Rightarrow> request \<Rightarrow> string \<Rightarrow> 's engine \<Rightarrow> 's engine" where
  "link_new ops fs_handle rq component st =
     (let dev = req_dev rq; lflag = req_lflag rq;
          (fn, s1) = (if L_CREATE \<in> lflag then create ops dev lflag (fs st)
                      else node_get ops dev (req_index rq) (fs st));
          st1 = emit (if L_CREATE \<in> lflag then Create dev lflag fn
                      else NodeGet dev (req_index rq) fn) (st\<lparr>fs := s1\<rparr>)
      in if fn \<noteq> None then
           (let (rc, s2) = link ops (cur st1) fn component (fs st1);
                st2 = emit (Link (cur st1) fn component rc) (st1\<lparr>fs := s2\<rparr>)
            in if rc \<noteq> EOK then
                 (let st3 = (if L_CREATE \<in> lflag
                             then emit (Destroy fn) (st2\<lparr>fs := snd (destroy ops fn (fs st2))\<rparr>)
                             else st2)
                  in ipc_answer_0 rc st3)
               else
                 do_node_put ops fn
                   (ipc_answer_5 EOK fs_handle dev (index_get ops fn (fs st2))
                      (size_get ops fn (fs st2)) (lnkcnt_get ops fn (fs st2)) st2))
         else ipc_answer_0 ENOSPC st1)"

subsection \<open>The lookup loop\<close>

text \<open>
  How a piece of the function body ends: it falls through (\<open>Continue\<close>), jumps to the
  label \<^verbatim>\<open>out\<close> (\<open>GotoOut\<close>), or the process stops at a failed \<^verbatim>\<open>assert\<close> or at a
  store outside \<^verbatim>\<open>component\<close> (\<open>Abort\<close>).
\<close>

datatype 's flow = Continue "'s engine" | GotoOut "'s engine" | Abort "'s engine"

text \<open>Lines 1349-1398: \<^verbatim>\<open>tmp\<close> is \<^verbatim>\<open>NULL\<close>.\<close>

definition handle_miss ::
  "'s libfs_ops \<Rightarrow> fs_handle_t \<Rightarrow> request \<Rightarrow> 32 word \<Rightarrow> string \<Rightarrow> 's engine \<Rightarrow> 's engine" where
  "handle_miss ops fs_handle rq lst component st =
     (if nxt st \<le> lst then ipc_answer_0 ENOENT st
      else if req_lflag rq \<inter> {L_CREATE, L_LINK} \<noteq> {} then
        (if \<not> is_directory ops (cur st) (fs st) then ipc_answer_0 ENOTDIR st
         else link_new ops fs_handle rq component st)
      else
        ipc_answer_0 ENOENT
          (if L_PARENT \<in> req_lflag rq
           then ipc_answer_5 EOK fs_handle (req_dev rq) (index_get ops (cur st) (fs st))
                  (size_get ops (cur st) (fs st)) (lnkcnt_get ops (cur st) (fs st)) st
           else st))"

text \<open>
  One iteration of the \<^verbatim>\<open>while\<close> loop of line 1329 (lines 1330-1406).  A failed
  \<^verbatim>\<open>assert(len)\<close> stops the process.  (\<open>Excess\<close> is a result of the second
  collecting loop only.)
\<close>

definition loop_body ::
  "'s libfs_ops \<Rightarrow> limits \<Rightarrow> fs_handle_t \<Rightarrow> request \<Rightarrow> 32 word \<Rightarrow> 's engine \<Rightarrow> 's flow" where
  "loop_body ops lim fs_handle rq lst st =
     (case collect (plb_get_char ops) (NAME_MAX lim) lst (nxt st) [] of
        TooLong \<Rightarrow> GotoOut (ipc_answer_0 ENAMETOOLONG st)
      | Overrun \<Rightarrow> Abort st
      | Excess \<Rightarrow> Abort st
      | Collected p component \<Rightarrow>
          if component = [] then Abort (st\<lparr>nxt := p\<rparr>)
          else
            (let (t, s1) = match ops (cur st) component (fs st);
                 st1 = emit (Match (cur st) component t)
                         (st\<lparr>nxt := p + 1, tmp := t, fs := s1\<rparr>)
             in if t = None then GotoOut (handle_miss ops fs_handle rq lst component st1)
                else Continue ((put_if ops (par st1) st1)\<lparr>par := cur st1, cur := t, tmp := None\<rparr>)))"

text \<open>
  The \<^verbatim>\<open>while\<close> loop of line 1329.  \<^verbatim>\<open>next\<close> is a 32-bit counter that wraps, so the
  loop need not end; the model counts iterations down from \<open>fuel\<close> and is \<open>None\<close> when
  they run out.
\<close>

fun lookup_loop ::
  "nat \<Rightarrow> 's libfs_ops \<Rightarrow> limits \<Rightarrow> fs_handle_t \<Rightarrow> request \<Rightarrow> 32 word \<Rightarrow> 's engine \<Rightarrow> 's flow option" where
  "lookup_loop 0 ops lim fs_handle rq lst st = None"
| "lookup_loop (Suc fuel) ops lim fs_handle rq lst st =
     (if nxt st \<le> lst \<and> has_children ops (cur st) (fs st) then
        (case loop_body ops lim fs_handle rq lst st of
           Continue st' \<Rightarrow> lookup_loop fuel ops lim fs_handle rq lst st'
         | GotoOut st' \<Rightarrow> Some (GotoOut st')
         | Abort st' \<Rightarrow> Some (Abort st'))
      else Some (Continue st))"

text \<open>
  The state in which the loop condition is evaluated for the \<open>n + 1\<close>-th time: the
  result of \<open>n\<close> iterations that all ended by descending one level (\<open>None\<close> if one of
  them was not entered or left the loop).
\<close>

fun descend ::
  "nat \<Rightarrow> 's libfs_ops \<Rightarrow> limits \<Rightarrow> fs_handle_t \<Rightarrow> request \<Rightarrow> 32 word \<Rightarrow> 's engine \<Rightarrow> 's engine option" where
  "descend 0 ops lim fs_handle rq lst st = Some st"
| "descend (Suc n) ops lim fs_handle rq lst st =
     (if nxt st \<le> lst \<and> has_children ops (cur st) (fs st) then
        (case loop_body ops lim fs_handle rq lst st of
           Continue st' \<Rightarrow> descend n ops lim fs_handle rq lst st'
         | GotoOut st' \<Rightarrow> None
         | Abort st' \<Rightarrow> None)
      else None)"

subsection \<open>After the loop\<close>

text \<open>Lines 1409-1464, entered when characters remain and \<^verbatim>\<open>cur\<close> has no children.\<close>

definition excessive ::
  "'s libfs_ops \<Rightarrow> limits \<Rightarrow> fs_handle_t \<Rightarrow> request \<Rightarrow> 32 word \<Rightarrow> 's engine \<Rightarrow> 's flow" where
  "excessive ops lim fs_handle rq lst st =
     (if req_lflag rq \<inter> {L_CREATE, L_LINK} \<noteq> {} then
        (if \<not> is_directory ops (cur st) (fs st) then GotoOut (ipc_answer_0 ENOTDIR st)
         else
           (case collect_last (plb_get_char ops) (NAME_MAX lim) lst (nxt st) [] of
              Excess \<Rightarrow> GotoOut (ipc_answer_0 ENOENT st)
            | TooLong \<Rightarrow> GotoOut (ipc_answer_0 ENAMETOOLONG st)
            | Overrun \<Rightarrow> Abort st
            | Collected p component \<Rightarrow>
                if component = [] then Abort (st\<lparr>nxt := p\<rparr>)
                else GotoOut (link_new ops fs_handle rq component (st\<lparr>nxt := p\<rparr>))))
      else GotoOut (ipc_answer_0 ENOENT st))"

text \<open>Lines 1466-1498: the whole path was consumed and led to \<^verbatim>\<open>cur\<close>.\<close>

definition handle_hit ::
  "'s libfs_ops \<Rightarrow> fs_handle_t \<Rightarrow> request \<Rightarrow> 's engine \<Rightarrow> 's engine" where
  "handle_hit ops fs_handle rq st0 =
     (let lflag = req_lflag rq; dev = req_dev rq;
          st = (if L_PARENT \<in> lflag
                then (do_node_put ops (cur st0) st0)\<lparr>cur := par st0, par := None\<rparr>
                else st0)
      in if L_PARENT \<in> lflag \<and> cur st = None then ipc_answer_0 ENOENT st
         else if L_UNLINK \<in> lflag then
           (let old_lnkcnt = lnkcnt_get ops (cur st) (fs st);
                (res, s1) = unlink ops (par st) (cur st) (fs st);
                st1 = emit (Unlink (par st) (cur st) res) (st\<lparr>fs := s1\<rparr>)
            in ipc_answer_5 res fs_handle dev (index_get ops (cur st1) (fs st1))
                 (size_get ops (cur st1) (fs st1)) old_lnkcnt st1)
         else if lflag \<inter> {L_CREATE, L_EXCLUSIVE} = {L_CREATE, L_EXCLUSIVE} \<or> L_LINK \<in> lflag
           then ipc_answer_0 EEXIST st
         else if L_FILE \<in> lflag \<and> is_directory ops (cur st) (fs st)
           then ipc_answer_0 EISDIR st
         else if L_DIRECTORY \<in> lflag \<and> is_file ops (cur st) (fs st)
           then ipc_answer_0 ENOTDIR st
         else ipc_answer_5 EOK fs_handle dev (index_get ops (cur st) (fs st))
                (size_get ops (cur st) (fs st)) (lnkcnt_get ops (cur st) (fs st)) st)"

text \<open>The label \<^verbatim>\<open>out\<close>, lines 1500-1506.\<close>

definition out :: "'s libfs_ops \<Rightarrow> 's engine \<Rightarrow> 's engine" where
  "out ops st =
     (let st1 = put_if ops (par st) st;
          st2 = put_if ops (cur st1) st1
      in put_if ops (tmp st2) st2)"

subsection \<open>The whole function\<close>

text \<open>
  What one call leaves behind: whether it returned (\<open>False\<close>: the process stopped at an
  assertion), the backend state and the trace.
\<close>

record 's result =
  returned :: bool
  final_fs :: 's
  final_trace :: "event list"

definition finish :: "bool \<Rightarrow> 's engine \<Rightarrow> 's result" where
  "finish r st = \<lparr>returned = r, final_fs = fs st, final_trace = trace st\<rparr>"

text \<open>Lines 1319-1327: the state in which the loop is entered.\<close>

definition lookup_last :: "limits \<Rightarrow> request \<Rightarrow> 32 word" where
  "lookup_last lim rq =
     (if req_last rq < req_next rq then req_last rq + PLB_SIZE lim else req_last rq)"

definition lookup_init :: "'s libfs_ops \<Rightarrow> request \<Rightarrow> 's \<Rightarrow> 's engine" where
  "lookup_init ops rq s =
     (let (c, s1) = root_get ops (req_dev rq) s
      in \<lparr>nxt = (if plb_get_char ops (req_next rq) = CHR ''/''
                  then req_next rq + 1 else req_next rq),
          par = None, cur = c, tmp = None, fs = s1,
          trace = [RootGet (req_dev rq) c]\<rparr>)"

text \<open>Lines 1409-1507, from the end of the loop to the return.\<close>

definition after_loop ::
  "'s libfs_ops \<Rightarrow> limits \<Rightarrow> fs_handle_t \<Rightarrow> request \<Rightarrow> 32 word \<Rightarrow> 's engine \<Rightarrow> 's result" where
  "after_loop ops lim fs_handle rq lst st =
     (if nxt st \<le> lst \<and> \<not> has_children ops (cur st) (fs st) then
        (case excessive ops lim fs_handle rq lst st of
           Abort st' \<Rightarrow> finish False st'
         | GotoOut st' \<Rightarrow> finish True (out ops st')
         | Continue st' \<Rightarrow> finish True (out ops st'))
      else finish True (out ops (handle_hit ops fs_handle rq st)))"

definition libfs_lookup ::
  "nat \<Rightarrow> 's libfs_ops \<Rightarrow> limits \<Rightarrow> fs_handle_t \<Rightarrow> request \<Rightarrow> 's \<Rightarrow> 's result option" where
  "libfs_lookup fuel ops lim fs_handle rq s =
     (let lst = lookup_last lim rq
      in case lookup_loop fuel ops lim fs_handle rq lst (lookup_init ops rq s) of
           None \<Rightarrow> None
         | Some (Abort st) \<Rightarrow> Some (finish False st)
         | Some (GotoOut st) \<Rightarrow> Some (finish True (out ops st))
         | Some (Continue st) \<Rightarrow> Some (after_loop ops lim fs_handle rq lst st))"

text \<open>
  Lines 1319-1498, from the entry to the label \<^verbatim>\<open>out\<close>: the state in which the label
  is reached (\<open>GotoOut\<close>), or the one in which the process stopped (\<open>Abort\<close>).
\<close>

definition before_out ::
  "nat \<Rightarrow> 's libfs_ops \<Rightarrow> limits \<Rightarrow> fs_handle_t \<Rightarrow> request \<Rightarrow> 's \<Rightarrow> 's flow option" where
  "before_out fuel ops lim fs_handle rq s =
     (let lst = lookup_last lim rq
      in case lookup_loop fuel ops lim fs_handle rq lst (lookup_init ops rq s) of
           None \<Rightarrow> None
         | Some (Abort st) \<Rightarrow> Some (Abort st)
         | Some (GotoOut st) \<Rightarrow> Some (GotoOut st)
         | Some (Continue st) \<Rightarrow>
             Some (if nxt st \<le> lst \<and> \<not> has_children ops (cur st) (fs st)
                   then excessive ops lim fs_handle rq lst st
                   else GotoOut (handle_hit ops fs_handle rq st)))"

text \<open>The answers among the events of a trace.\<close>

fun is_answer :: "event \<Rightarrow> bool" where
  "is_answer (Answer0 rc) = True"
| "is_answer (Answer5 rc a1 a2 a3 a4 a5) = True"
| "is_answer e = False"

definition replies :: "event list \<Rightarrow> event list" where
  "replies tr = filter is_answer tr"

subsection \<open>Node references\<close>

text \<open>
  The node references a trace takes and gives back: \<^verbatim>\<open>root_get\<close> and \<^verbatim>\<open>match\<close>
  return the references that \<^verbatim>\<open>cur\<close>, \<^verbatim>\<open>tmp\<close> and \<^verbatim>\<open>par\<close> hold; the reference to
  a new node \<^verbatim>\<open>fn\<close> is released by the function itself once \<^verbatim>\<open>link\<close> has
  succeeded; \<^verbatim>\<open>node_put\<close> releases a reference.  \<open>refs f tr\<close> is the multiset of the
  nodes (not \<^verbatim>\<open>NULL\<close>) that \<open>f\<close> finds in the events of \<open>tr\<close>.
\<close>

fun acquired_by :: "event \<Rightarrow> node option" where
  "acquired_by (RootGet d n) = n"
| "acquired_by (Match c nm n) = n"
| "acquired_by e = None"

fun linked_by :: "event \<Rightarrow> node option" where
  "linked_by (Link c fn nm rc) = (if rc = EOK then fn else None)"
| "linked_by e = None"

fun released_by :: "event \<Rightarrow> node option" where
  "released_by (NodePut n) = n"
| "released_by e = None"

definition refs :: "(event \<Rightarrow> node option) \<Rightarrow> event list \<Rightarrow> node multiset" where
  "refs f tr = mset (List.map_filter f tr)"

text \<open>The references held in \<^verbatim>\<open>par\<close>, \<^verbatim>\<open>cur\<close> and \<^verbatim>\<open>tmp\<close>.\<close>

definition held :: "'s engine \<Rightarrow> node multiset" where
  "held st = mset (List.map_filter (\<lambda>n. n) [par st, cur st, tmp st])"

text \<open>Every reference taken so far has been released or is held.\<close>

definition balanced :: "'s engine \<Rightarrow> bool" where
  "balanced st \<longleftrightarrow>
     refs acquired_by (trace st) + refs linked_by (trace st) =
     refs released_by (trace st) + held st"

subsection \<open>Moving a path within the buffer\<close>

text \<open>
  The characters that \<open>g'\<close> gives at the offsets up to \<open>lst\<close> are those that \<open>g\<close>
  gives \<open>d\<close> positions further on, and the offsets up to \<open>lst + d + 2\<close> do not wrap
  around as 32-bit numbers.
\<close>

definition shift_ok :: "(32 word \<Rightarrow> char) \<Rightarrow> (32 word \<Rightarrow> char) \<Rightarrow> 32 word \<Rightarrow> 32 word \<Rightarrow> bool" where
  "shift_ok g' g lst d \<longleftrightarrow> (\<forall>q. q \<le> lst \<longrightarrow> g' q = g (q + d)) \<and> unat lst + unat d + 2 < 2 ^ 32"

text \<open>The offset in a result of the collecting loops, and in an engine state, moved by \<open>d\<close>.\<close>

fun shift_collected :: "32 word \<Rightarrow> collected \<Rightarrow> collected" where
  "shift_collected d (Collected q c) = Collected (q + d) c"
| "shift_collected d r = r"

fun shift_flow :: "32 word \<Rightarrow> 's flow \<Rightarrow> 's flow" where
  "shift_flow d (Continue st) = Continue (st\<lparr>nxt := nxt st + d\<rparr>)"
| "shift_flow d (GotoOut st) = GotoOut (st\<lparr>nxt := nxt st + d\<rparr>)"
| "shift_flow d (Abort st) = Abort (st\<lparr>nxt := nxt st + d\<rparr>)"

subsection \<open>Registration with VFS\<close>

text \<open>
  \<^verbatim>\<open>fs_reg_t\<close>: the three fields \<^verbatim>\<open>fs_register\<close> initialises.  \<^verbatim>\<open>plb_ro\<close> is the
  address of the mapped path lookup buffer, \<open>None\<close> being \<^verbatim>\<open>NULL\<close>.  \<^verbatim>\<open>fs_handle\<close>
  receives \<^verbatim>\<open>(int) IPC_GET_ARG1(answer)\<close>: a 32-bit two's-complement number.
\<close>

record fs_reg_t =
  vfs_phonehash :: nat
  plb_ro :: "nat option"
  fs_handle :: int

text \<open>
  The IPC and address-space calls \<^verbatim>\<open>fs_register\<close> makes are outside the sources; what
  they return is a parameter of the model: the status of \<^verbatim>\<open>ipc_data_write_start\<close>,
  the status and the phone hash of \<^verbatim>\<open>ipc_connect_to_me\<close>, the page
  \<^verbatim>\<open>as_get_mappable_page\<close> returns, the status of \<^verbatim>\<open>ipc_share_in_start_0_0\<close>, and
  the first argument and the return value of the answer to \<^verbatim>\<open>VFS_REGISTER\<close>.  The
  spec counts the request for the callback connection among the steps that may fail,
  so its status is part of the environment, although the code does not read it.
\<close>

record vfs_env =
  data_write_rc :: errno
  connect_rc :: errno
  connect_phonehash :: nat
  mappable_page :: "nat option"
  share_rc :: errno
  answer_arg1 :: nat
  answer_retval :: errno

text \<open>The calls \<^verbatim>\<open>fs_register\<close> makes, in their order.\<close>

datatype reg_event =
    SendRegister
  | DataWriteStart
  | ConnectToMe
  | GetMappablePage
  | ShareInStart nat
  | WaitFor
  | NewConnection nat
  | SetClientConnection

text \<open>
  \<^verbatim>\<open>fs_register\<close> (lines 1233-1294): the value returned, the registration structure
  and the calls made.  The code calls \<^verbatim>\<open>ipc_connect_to_me\<close> as a statement and keeps
  only the phone hash; \<^verbatim>\<open>if (rc)\<close> is \<open>rc \<noteq> EOK\<close>, \<open>EOK\<close> being zero.  The cast
  \<^verbatim>\<open>(int) IPC_GET_ARG1(answer)\<close> keeps the low 32 bits of the argument and reads them as
  a signed number.
\<close>

definition fs_register :: "vfs_env \<Rightarrow> fs_reg_t \<Rightarrow> errno \<times> fs_reg_t \<times> reg_event list" where
  "fs_register env reg =
     (let tr1 = [SendRegister, DataWriteStart];
          rc = data_write_rc env
      in if rc \<noteq> EOK then (rc, reg, tr1 @ [WaitFor])
         else
           (let reg1 = reg\<lparr>vfs_phonehash := connect_phonehash env\<rparr>;
                reg2 = reg1\<lparr>plb_ro := mappable_page env\<rparr>;
                tr2 = tr1 @ [ConnectToMe, GetMappablePage]
            in case plb_ro reg2 of
                 None \<Rightarrow> (ENOMEM, reg2, tr2 @ [WaitFor])
               | Some page \<Rightarrow>
                   (let rc = share_rc env;
                        tr3 = tr2 @ [ShareInStart page]
                    in if rc \<noteq> EOK then (rc, reg2, tr3 @ [WaitFor])
                       else (answer_retval env,
                             reg2\<lparr>fs_handle := sint (word_of_nat (answer_arg1 env) :: 32 word)\<rparr>,
                             tr3 @ [WaitFor, NewConnection (vfs_phonehash reg2),
                                    SetClientConnection]))))"

text \<open>
  The status the handshake is to return according to the spec's description: each of
  the steps 2 to 5 may fail, the code of the first step that fails is propagated, and
  otherwise the status of the registration call's answer is returned.  (Step 4 fails
  with out-of-memory.)
\<close>

definition first_failure :: "vfs_env \<Rightarrow> errno option" where
  "first_failure env =
     (if data_write_rc env \<noteq> EOK then Some (data_write_rc env)
      else if connect_rc env \<noteq> EOK then Some (connect_rc env)
      else if mappable_page env = None then Some ENOMEM
      else if share_rc env \<noteq> EOK then Some (share_rc env)
      else None)"

definition handshake_status :: "vfs_env \<Rightarrow> errno" where
  "handshake_status env =
     (case first_failure env of Some rc \<Rightarrow> rc | None \<Rightarrow> answer_retval env)"

text \<open>A coordinator that lets every step succeed, and an empty registration structure.\<close>

definition env0 :: vfs_env where
  "env0 = \<lparr>data_write_rc = EOK, connect_rc = EOK, connect_phonehash = 5,
           mappable_page = Some 4096, share_rc = EOK, answer_arg1 = 3, answer_retval = EOK\<rparr>"

definition reg0 :: fs_reg_t where
  "reg0 = \<lparr>vfs_phonehash = 0, plb_ro = None, fs_handle = 0\<rparr>"

subsection \<open>A small backend for concrete runs\<close>

text \<open>
  Modelled from the spec: a backend's \<^verbatim>\<open>plb_get_char\<close> is not part of the sources.
  The spec describes it as returning the character at the given offset modulo the
  capacity of the path lookup buffer; \<open>plb\<close> is the buffer's content and its length the
  capacity.
\<close>

definition plb_read :: "string \<Rightarrow> 32 word \<Rightarrow> char" where
  "plb_read plb pos = plb ! (unat pos mod length plb)"

text \<open>
  No file system backend is part of the sources.  The concrete runs below use this one:
  directory entries as (parent, name, child) triples, the directories among the nodes,
  link counts, the next unused node, the status \<^verbatim>\<open>link\<close> reports, the nodes
  destroyed so far and the arguments of the calls of \<^verbatim>\<open>node_put\<close> so far.  The root is
  node 0 and a node's index is the node itself.
\<close>

record ramfs =
  dentries :: "(node \<times> string \<times> node) list"
  dirs :: "node list"
  lnkcnts :: "(node \<times> nat) list"
  fresh :: node
  link_status :: errno
  destroyed :: "node list"
  released :: "node option list"

definition ram_lnkcnt :: "node option \<Rightarrow> ramfs \<Rightarrow> nat" where
  "ram_lnkcnt n s =
     (case n of None \<Rightarrow> 0
      | Some k \<Rightarrow> (case map_of (lnkcnts s) k of None \<Rightarrow> 0 | Some c \<Rightarrow> c))"

definition ram_match :: "node option \<Rightarrow> string \<Rightarrow> ramfs \<Rightarrow> node option \<times> ramfs" where
  "ram_match p name s =
     (case p of None \<Rightarrow> (None, s)
      | Some d \<Rightarrow> (map_option (\<lambda>(a, b, c). c)
                     (find (\<lambda>(a, b, c). a = d \<and> b = name) (dentries s)), s))"

definition ram_create :: "dev_handle_t \<Rightarrow> lflags \<Rightarrow> ramfs \<Rightarrow> node option \<times> ramfs" where
  "ram_create dev lflag s =
     (Some (fresh s),
      s\<lparr>fresh := fresh s + 1,
        dirs := (if L_DIRECTORY \<in> lflag then fresh s # dirs s else dirs s)\<rparr>)"

definition ram_link ::
  "node option \<Rightarrow> node option \<Rightarrow> string \<Rightarrow> ramfs \<Rightarrow> errno \<times> ramfs" where
  "ram_link p c name s =
     (case (p, c) of
        (Some d, Some k) \<Rightarrow>
          if link_status s \<noteq> EOK then (link_status s, s)
          else (EOK, s\<lparr>dentries := (d, name, k) # dentries s,
                       lnkcnts := (k, ram_lnkcnt c s + 1) # lnkcnts s\<rparr>)
      | _ \<Rightarrow> (ENOENT, s))"

definition ram_unlink :: "node option \<Rightarrow> node option \<Rightarrow> ramfs \<Rightarrow> errno \<times> ramfs" where
  "ram_unlink p c s =
     (case (p, c) of
        (Some d, Some k) \<Rightarrow>
          (EOK, s\<lparr>dentries := filter (\<lambda>(a, b, e). \<not> (a = d \<and> e = k)) (dentries s),
                  lnkcnts := (k, ram_lnkcnt c s - 1) # lnkcnts s\<rparr>)
      | _ \<Rightarrow> (ENOENT, s))"

definition ram_ops :: "string \<Rightarrow> ramfs libfs_ops" where
  "ram_ops plb =
     \<lparr>match = ram_match,
      node_get = (\<lambda>dev i s. (if i < fresh s then Some i else None, s)),
      node_put = (\<lambda>n s. s\<lparr>released := released s @ [n]\<rparr>),
      create = ram_create,
      destroy = (\<lambda>n s. (EOK, case n of None \<Rightarrow> s | Some k \<Rightarrow> s\<lparr>destroyed := k # destroyed s\<rparr>)),
      link = ram_link,
      unlink = ram_unlink,
      index_get = (\<lambda>n s. case n of None \<Rightarrow> 0 | Some k \<Rightarrow> k),
      size_get = (\<lambda>n s. 0),
      lnkcnt_get = ram_lnkcnt,
      has_children = (\<lambda>n s. case n of None \<Rightarrow> False
                              | Some k \<Rightarrow> list_ex (\<lambda>(a, b, c). a = k) (dentries s)),
      root_get = (\<lambda>dev s. (Some 0, s)),
      plb_get_char = plb_read plb,
      is_directory = (\<lambda>n s. case n of None \<Rightarrow> False | Some k \<Rightarrow> k \<in> set (dirs s)),
      is_file = (\<lambda>n s. case n of None \<Rightarrow> False | Some k \<Rightarrow> k \<notin> set (dirs s))\<rparr>"

text \<open>The tree \<^verbatim>\<open>/a/b\<close>: directories 0 (root) and 1 (\<^verbatim>\<open>a\<close>), file 2 (\<^verbatim>\<open>b\<close>).\<close>

definition ram0 :: ramfs where
  "ram0 = \<lparr>dentries = [(0, ''a'', 1), (1, ''b'', 2)], dirs = [0, 1],
           lnkcnts = [(1, 1), (2, 1)], fresh = 3, link_status = EOK, destroyed = [],
           released = []\<rparr>"

definition lim0 :: limits where
  "lim0 = \<lparr>PLB_SIZE = 8, NAME_MAX = 4\<rparr>"

definition mk_request :: "32 word \<Rightarrow> 32 word \<Rightarrow> lflags \<Rightarrow> fs_index_t \<Rightarrow> request" where
  "mk_request a b lflag i =
     \<lparr>req_next = a, req_last = b, req_dev = 0, req_lflag = lflag, req_index = i\<rparr>"

subsection \<open>The shape of a trace\<close>

text \<open>
  The events of walking down the tree: getting the root, matching a component and
  releasing a node.
\<close>

fun walk_event :: "event \<Rightarrow> bool" where
  "walk_event (RootGet d n) = True"
| "walk_event (Match c nm n) = True"
| "walk_event (NodePut n) = True"
| "walk_event e = False"

text \<open>The call with which \<open>link_new\<close> obtains \<^verbatim>\<open>fn\<close>.\<close>

definition obtain_event :: "request \<Rightarrow> node option \<Rightarrow> event" where
  "obtain_event rq fn =
     (if L_CREATE \<in> req_lflag rq then Create (req_dev rq) (req_lflag rq) fn
      else NodeGet (req_dev rq) (req_index rq) fn)"

text \<open>
  The events with which a request can end, apart from the releases at \<^verbatim>\<open>out\<close>: one
  status, one triplet, a triplet followed by \<^verbatim>\<open>ENOENT\<close>, an unlink and its answer, or
  one of the three courses of \<open>link_new\<close>.
\<close>

definition ending :: "request \<Rightarrow> event list \<Rightarrow> bool" where
  "ending rq t \<longleftrightarrow>
     (\<exists>rc. t = [Answer0 rc]) \<or>
     (\<exists>a b c d e. t = [Answer5 EOK a b c d e]) \<or>
     (\<exists>a b c d e. L_PARENT \<in> req_lflag rq \<and> t = [Answer5 EOK a b c d e, Answer0 ENOENT]) \<or>
     (\<exists>p c res a b d e f. L_UNLINK \<in> req_lflag rq \<and> t = [Unlink p c res, Answer5 res a b d e f]) \<or>
     t = [obtain_event rq None, Answer0 ENOSPC] \<or>
     (\<exists>fn c nm rc. fn \<noteq> None \<and> rc \<noteq> EOK \<and>
        t = [obtain_event rq fn, Link c fn nm rc] @
            (if L_CREATE \<in> req_lflag rq then [Destroy fn] else []) @ [Answer0 rc]) \<or>
     (\<exists>fn c nm a b d e f. fn \<noteq> None \<and>
        t = [obtain_event rq fn, Link c fn nm EOK, Answer5 EOK a b d e f, NodePut fn])"

text \<open>
  The \<open>k\<close> characters from offset \<open>p\<close> on are within the range that ends at \<open>lst\<close>
  and none of them is a separator (the conditions the collecting loops test, with the
  offsets wrapping as they do in the code).
\<close>

definition component_at :: "(32 word \<Rightarrow> char) \<Rightarrow> 32 word \<Rightarrow> 32 word \<Rightarrow> nat \<Rightarrow> bool" where
  "component_at g lst p k \<longleftrightarrow> (\<forall>i<k. p + of_nat i \<le> lst \<and> g (p + of_nat i) \<noteq> CHR ''/'')"

section \<open>Properties\<close>

subsection \<open>Selectors of the effects\<close>

lemma emit_sel [simp]:
  "trace (emit e st) = trace st @ [e]" "fs (emit e st) = fs st" "cur (emit e st) = cur st"
  "par (emit e st) = par st" "tmp (emit e st) = tmp st" "nxt (emit e st) = nxt st"
  by (simp_all add: emit_def)

lemma ipc_answer_0_sel [simp]:
  "trace (ipc_answer_0 rc st) = trace st @ [Answer0 rc]" "fs (ipc_answer_0 rc st) = fs st"
  "cur (ipc_answer_0 rc st) = cur st" "par (ipc_answer_0 rc st) = par st"
  "tmp (ipc_answer_0 rc st) = tmp st" "nxt (ipc_answer_0 rc st) = nxt st"
  by (simp_all add: ipc_answer_0_def)

lemma ipc_answer_5_sel [simp]:
  "trace (ipc_answer_5 rc a1 a2 a3 a4 a5 st) = trace st @ [Answer5 rc a1 a2 a3 a4 a5]"
  "fs (ipc_answer_5 rc a1 a2 a3 a4 a5 st) = fs st"
  "cur (ipc_answer_5 rc a1 a2 a3 a4 a5 st) = cur st"
  "par (ipc_answer_5 rc a1 a2 a3 a4 a5 st) = par st"
  "tmp (ipc_answer_5 rc a1 a2 a3 a4 a5 st) = tmp st"
  "nxt (ipc_answer_5 rc a1 a2 a3 a4 a5 st) = nxt st"
  by (simp_all add: ipc_answer_5_def)

lemma do_node_put_sel [simp]:
  "trace (do_node_put ops n st) = trace st @ [NodePut n]"
  "fs (do_node_put ops n st) = node_put ops n (fs st)"
  "cur (do_node_put ops n st) = cur st" "par (do_node_put ops n st) = par st"
  "tmp (do_node_put ops n st) = tmp st" "nxt (do_node_put ops n st) = nxt st"
  by (simp_all add: do_node_put_def)

lemma put_if_sel [simp]:
  "trace (put_if ops n st) = trace st @ (if n = None then [] else [NodePut n])"
  "fs (put_if ops n st) = (if n = None then fs st else node_put ops n (fs st))"
  "cur (put_if ops n st) = cur st" "par (put_if ops n st) = par st"
  "tmp (put_if ops n st) = tmp st" "nxt (put_if ops n st) = nxt st"
  by (simp_all add: put_if_def)

lemma replies_append [simp]: "replies (xs @ ys) = replies xs @ replies ys"
  by (simp add: replies_def)

lemma replies_simps [simp]:
  "replies [] = []"
  "replies (e # tr) = (if is_answer e then e # replies tr else replies tr)"
  by (simp_all add: replies_def)

lemma trace_out:
  "trace (out ops st) = trace st @ map NodePut (filter (\<lambda>p. p \<noteq> None) [par st, cur st, tmp st])"
  by (simp add: out_def Let_def)

lemma replies_out [simp]: "replies (trace (out ops st)) = replies (trace st)"
  by (simp add: out_def Let_def)

lemma finish_sel [simp]:
  "returned (finish r st) = r" "final_fs (finish r st) = fs st"
  "final_trace (finish r st) = trace st"
  by (simp_all add: finish_def)

lemma lookup_loop_descend:
  "descend n ops lim h rq lst st = Some st' \<Longrightarrow>
   lookup_loop (n + k) ops lim h rq lst st = lookup_loop k ops lim h rq lst st'"
  by (induction n arbitrary: st) (auto split: if_splits flow.splits)

lemma loop_body_Continue_replies:
  "loop_body ops lim h rq lst st = Continue st' \<Longrightarrow> replies (trace st') = replies (trace st)"
  by (auto simp: loop_body_def Let_def split: collected.splits if_splits prod.splits)

lemma descend_replies:
  "descend n ops lim h rq lst st = Some st' \<Longrightarrow> replies (trace st') = replies (trace st)"
  by (induction n arbitrary: st) (auto split: if_splits flow.splits dest: loop_body_Continue_replies)

lemma replies_lookup_init [simp]: "replies (trace (lookup_init ops rq s)) = []"
  by (simp add: lookup_init_def Let_def split: prod.splits)

subsection \<open>Answers\<close>

text \<open>
  C1 (the code does not do this).  Every lookup is to be answered exactly once.  The
  branch for a miss in the last component with \<^verbatim>\<open>L_PARENT\<close> (lines 1390-1397)
  answers with the parent's triplet and then falls through to the \<^verbatim>\<open>ENOENT\<close> answer:
  looking up \<^verbatim>\<open>/a/x\<close> with \<^verbatim>\<open>L_PARENT\<close>, where \<^verbatim>\<open>a\<close> exists and
  \<^verbatim>\<open>x\<close> does not, sends two answers.
\<close>

theorem parent_miss_answers_twice:
  "map_option (replies \<circ> final_trace)
     (libfs_lookup 5 (ram_ops ''/a/x0000'') lim0 7 (mk_request 0 3 {L_PARENT} 0) ram0) =
   Some [Answer5 EOK 7 0 1 0 1, Answer0 ENOENT]"
  by code_simp

subsection \<open>A path that leads to an existing node\<close>

lemma libfs_lookup_hit:
  assumes "lookup_loop fuel ops lim h rq (lookup_last lim rq) (lookup_init ops rq s) = Some (Continue st)"
    and "lookup_last lim rq < nxt st"
  shows "libfs_lookup fuel ops lim h rq s = Some (finish True (out ops (handle_hit ops h rq st)))"
  using assms by (simp add: libfs_lookup_def after_loop_def Let_def not_le [symmetric])

lemma out_answer_0:
  "trace (out ops (ipc_answer_0 rc st)) =
     trace st @ [Answer0 rc] @ map NodePut (filter (\<lambda>n. n \<noteq> None) [par st, cur st, tmp st])"
  "fs (out ops (ipc_answer_0 rc st)) = fs (out ops st)"
  by (simp_all add: out_def Let_def)

lemma libfs_lookup_excess:
  assumes "lookup_loop fuel ops lim h rq (lookup_last lim rq) (lookup_init ops rq s) = Some (Continue st)"
    and "nxt st \<le> lookup_last lim rq" and "\<not> has_children ops (cur st) (fs st)"
    and "excessive ops lim h rq (lookup_last lim rq) st = GotoOut st'"
  shows "libfs_lookup fuel ops lim h rq s = Some (finish True (out ops st'))"
  using assms by (simp add: libfs_lookup_def after_loop_def Let_def)

lemma lookup_loop_Continue_replies:
  "lookup_loop fuel ops lim h rq lst st = Some (Continue st') \<Longrightarrow>
   replies (trace st') = replies (trace st)"
  by (induction fuel arbitrary: st)
     (auto split: if_splits flow.splits dest: loop_body_Continue_replies)

text \<open>
  C8.  When the loop has consumed the whole path (it ends with \<^verbatim>\<open>next > last\<close>, so
  \<^verbatim>\<open>cur\<close> is the node the path names), \<^verbatim>\<open>L_UNLINK\<close> is not set and the
  \<^verbatim>\<open>L_PARENT\<close> handling does not end the request (\<^verbatim>\<open>L_PARENT\<close> is not set or
  there is a parent), then the only answer is \<^verbatim>\<open>EEXIST\<close> if the flags contain both
  \<^verbatim>\<open>L_CREATE\<close> and \<^verbatim>\<open>L_EXCLUSIVE\<close>, or contain \<^verbatim>\<open>L_LINK\<close>; with
  \<^verbatim>\<open>L_CREATE\<close> but neither \<^verbatim>\<open>L_EXCLUSIVE\<close> nor \<^verbatim>\<open>L_LINK\<close> no answer is
  \<^verbatim>\<open>EEXIST\<close>.
\<close>

theorem existing_name_already_exists:
  assumes "lookup_loop fuel ops lim h rq (lookup_last lim rq) (lookup_init ops rq s) = Some (Continue st)"
    and "lookup_last lim rq < nxt st"
    and "L_UNLINK \<notin> req_lflag rq"
    and "L_PARENT \<in> req_lflag rq \<longrightarrow> par st \<noteq> None"
  shows "\<exists>r. libfs_lookup fuel ops lim h rq s = Some r \<and> returned r \<and>
           ((L_CREATE \<in> req_lflag rq \<and> L_EXCLUSIVE \<in> req_lflag rq) \<or> L_LINK \<in> req_lflag rq
              \<longrightarrow> replies (final_trace r) = [Answer0 EEXIST]) \<and>
           (L_CREATE \<in> req_lflag rq \<and> L_EXCLUSIVE \<notin> req_lflag rq \<and> L_LINK \<notin> req_lflag rq
              \<longrightarrow> Answer0 EEXIST \<notin> set (replies (final_trace r)))"
proof -
  have e: "replies (trace st) = []"
    using lookup_loop_Continue_replies [OF assms(1)] by simp
  have 1: "(L_CREATE \<in> req_lflag rq \<and> L_EXCLUSIVE \<in> req_lflag rq) \<or> L_LINK \<in> req_lflag rq
      \<Longrightarrow> replies (trace (handle_hit ops h rq st)) = [Answer0 EEXIST]"
    using assms(3,4) e by (auto simp: handle_hit_def Let_def)
  have 2: "L_CREATE \<in> req_lflag rq \<and> L_EXCLUSIVE \<notin> req_lflag rq \<and> L_LINK \<notin> req_lflag rq
      \<Longrightarrow> Answer0 EEXIST \<notin> set (replies (trace (handle_hit ops h rq st)))"
    using assms(3,4) e by (auto simp: handle_hit_def Let_def)
  show ?thesis
    using libfs_lookup_hit [OF assms(1,2)] 1 2 by simp
qed

theorem existing_name_already_exists_witness:
  "(\<exists>r. libfs_lookup 3 (ram_ops ''/a/b0000'') lim0 7
          (mk_request 0 3 {L_CREATE, L_EXCLUSIVE} 0) ram0 = Some r \<and> returned r \<and>
        replies (final_trace r) = [Answer0 EEXIST]) \<and>
   (\<exists>r. libfs_lookup 3 (ram_ops ''/a/b0000'') lim0 7
          (mk_request 0 3 {L_PARENT, L_LINK} 0) ram0 = Some r \<and> returned r \<and>
        replies (final_trace r) = [Answer0 EEXIST]) \<and>
   (\<exists>r. libfs_lookup 3 (ram_ops ''/a/b0000'') lim0 7
          (mk_request 0 3 {L_CREATE} 0) ram0 = Some r \<and> returned r \<and>
        Answer0 EEXIST \<notin> set (replies (final_trace r)))"
proof -
  let ?ops = "ram_ops ''/a/b0000''"
  let ?st = "\<lparr>nxt = 5, par = Some 1, cur = Some 2, tmp = None,
              fs = ram0\<lparr>released := [Some 0]\<rparr>,
              trace = [RootGet 0 (Some 0), Match (Some 0) ''a'' (Some 1),
                       Match (Some 1) ''b'' (Some 2), NodePut (Some 0)]\<rparr>"
  have l: "lookup_loop 3 ?ops lim0 7 (mk_request 0 3 lf 0)
             (lookup_last lim0 (mk_request 0 3 lf 0))
             (lookup_init ?ops (mk_request 0 3 lf 0) ram0) = Some (Continue ?st)" for lf
    by code_simp
  have c: "lookup_last lim0 (mk_request 0 3 lf 0) < nxt ?st" for lf
    by code_simp
  have f: "req_lflag (mk_request 0 3 lf 0) = lf" for lf
    by (simp add: mk_request_def)
  have p: "par ?st \<noteq> None" by simp
  show ?thesis
    using existing_name_already_exists [OF l c, of "{L_CREATE, L_EXCLUSIVE}"]
      existing_name_already_exists [OF l c, of "{L_PARENT, L_LINK}"]
      existing_name_already_exists [OF l c, of "{L_CREATE}"]
    unfolding f using p by simp
qed

text \<open>
  C3.  When the loop has consumed the whole path and \<^verbatim>\<open>L_UNLINK\<close> is set, the
  function calls \<^verbatim>\<open>unlink\<close> on the node \<open>c\<close> the lookup resolved to (\<^verbatim>\<open>cur\<close>, or
  the parent if \<^verbatim>\<open>L_PARENT\<close> is set as well) and then sends one answer, which carries
  the status \<open>res\<close> of \<^verbatim>\<open>unlink\<close> and, as its link count, the one read in the backend
  state \<open>s0\<close> in which \<^verbatim>\<open>unlink\<close> was called, not the one of the state \<open>s1\<close> that
  \<^verbatim>\<open>unlink\<close> left.  In the concrete run the answer carries link count 1 and the
  node's link count afterwards is 0.
\<close>

theorem unlink_reports_old_link_count:
  assumes "lookup_loop fuel ops lim h rq (lookup_last lim rq) (lookup_init ops rq s) = Some (Continue st)"
    and "lookup_last lim rq < nxt st"
    and "L_UNLINK \<in> req_lflag rq"
    and "L_PARENT \<in> req_lflag rq \<longrightarrow> par st \<noteq> None"
    and "c = (if L_PARENT \<in> req_lflag rq then par st else cur st)"
    and "p = (if L_PARENT \<in> req_lflag rq then None else par st)"
    and "s0 = (if L_PARENT \<in> req_lflag rq then node_put ops (cur st) (fs st) else fs st)"
    and "unlink ops p c s0 = (res, s1)"
  shows "\<exists>r. libfs_lookup fuel ops lim h rq s = Some r \<and> returned r \<and>
           final_trace r = trace st @
             (if L_PARENT \<in> req_lflag rq then [NodePut (cur st)] else []) @
             [Unlink p c res,
              Answer5 res h (req_dev rq) (index_get ops c s1) (size_get ops c s1)
                (lnkcnt_get ops c s0)] @
             map NodePut (filter (\<lambda>n. n \<noteq> None) [p, c, tmp st]) \<and>
           replies (final_trace r) =
             [Answer5 res h (req_dev rq) (index_get ops c s1) (size_get ops c s1)
                (lnkcnt_get ops c s0)]"
proof -
  have e: "replies (trace st) = []"
    using lookup_loop_Continue_replies [OF assms(1)] by simp
  let ?st' = "handle_hit ops h rq st"
  have t: "trace ?st' = trace st @
             (if L_PARENT \<in> req_lflag rq then [NodePut (cur st)] else []) @
             [Unlink p c res,
              Answer5 res h (req_dev rq) (index_get ops c s1) (size_get ops c s1)
                (lnkcnt_get ops c s0)]"
    and l: "par ?st' = p" "cur ?st' = c" "tmp ?st' = tmp st"
    using assms(3-8) by (auto simp: handle_hit_def Let_def)
  show ?thesis
    using libfs_lookup_hit [OF assms(1,2)] t l e by (simp add: trace_out)
qed

theorem unlink_reports_old_link_count_witness:
  "\<exists>r. libfs_lookup 3 (ram_ops ''/a/b0000'') lim0 7 (mk_request 0 3 {L_UNLINK} 0) ram0 = Some r \<and>
       returned r \<and>
       final_trace r =
         [RootGet 0 (Some 0), Match (Some 0) ''a'' (Some 1), Match (Some 1) ''b'' (Some 2),
          NodePut (Some 0), Unlink (Some 1) (Some 2) EOK, Answer5 EOK 7 0 2 0 1,
          NodePut (Some 1), NodePut (Some 2)] \<and>
       replies (final_trace r) = [Answer5 EOK 7 0 2 0 1] \<and>
       ram_lnkcnt (Some 2) (final_fs r) = 0"
proof -
  let ?ops = "ram_ops ''/a/b0000''" and ?rq = "mk_request 0 3 {L_UNLINK} 0"
  let ?st = "\<lparr>nxt = 5, par = Some 1, cur = Some 2, tmp = None,
              fs = ram0\<lparr>released := [Some 0]\<rparr>,
              trace = [RootGet 0 (Some 0), Match (Some 0) ''a'' (Some 1),
                       Match (Some 1) ''b'' (Some 2), NodePut (Some 0)]\<rparr>"
  let ?s1 = "ram0\<lparr>dentries := [(0, ''a'', 1)], lnkcnts := [(2, 0), (1, 1), (2, 1)],
                   released := [Some 0]\<rparr>"
  have h1: "lookup_loop 3 ?ops lim0 7 ?rq (lookup_last lim0 ?rq) (lookup_init ?ops ?rq ram0) =
              Some (Continue ?st)"
    by code_simp
  have h2: "lookup_last lim0 ?rq < nxt ?st" by code_simp
  have h3: "L_UNLINK \<in> req_lflag ?rq" by (simp add: mk_request_def)
  have h4: "L_PARENT \<in> req_lflag ?rq \<longrightarrow> par ?st \<noteq> None" by simp
  have h5: "cur ?st = (if L_PARENT \<in> req_lflag ?rq then par ?st else cur ?st)"
    by (simp add: mk_request_def)
  have h6: "par ?st = (if L_PARENT \<in> req_lflag ?rq then None else par ?st)"
    by (simp add: mk_request_def)
  have h7: "fs ?st = (if L_PARENT \<in> req_lflag ?rq then node_put ?ops (cur ?st) (fs ?st) else fs ?st)"
    by (simp add: mk_request_def)
  have h8: "unlink ?ops (par ?st) (cur ?st) (fs ?st) = (EOK, ?s1)" by code_simp
  have v: "index_get ?ops (Some 2) ?s1 = 2" "size_get ?ops (Some 2) ?s1 = 0"
    "lnkcnt_get ?ops (Some 2) (ram0\<lparr>released := [Some 0]\<rparr>) = 1" "req_dev ?rq = 0"
    "L_PARENT \<notin> req_lflag ?rq"
    by code_simp+
  from unlink_reports_old_link_count [OF h1 h2 h3 h4 h5 h6 h7 h8]
  obtain r where r: "libfs_lookup 3 ?ops lim0 7 ?rq ram0 = Some r" "returned r"
    "final_trace r = trace ?st @
             (if L_PARENT \<in> req_lflag ?rq then [NodePut (cur ?st)] else []) @
             [Unlink (par ?st) (cur ?st) EOK,
              Answer5 EOK 7 (req_dev ?rq) (index_get ?ops (cur ?st) ?s1) (size_get ?ops (cur ?st) ?s1)
                (lnkcnt_get ?ops (cur ?st) (fs ?st))] @
             map NodePut (filter (\<lambda>n. n \<noteq> None) [par ?st, cur ?st, tmp ?st])"
     "replies (final_trace r) = 
             [Answer5 EOK 7 (req_dev ?rq) (index_get ?ops (cur ?st) ?s1) (size_get ?ops (cur ?st) ?s1)
                (lnkcnt_get ?ops (cur ?st) (fs ?st))]"
    by blast
  have fs: "ram_lnkcnt (Some 2) (the (map_option final_fs (libfs_lookup 3 ?ops lim0 7 ?rq ram0))) = 0"
    by code_simp
  show ?thesis
    using r fs v by simp
qed

subsection \<open>The trace of a lookup\<close>

lemma link_new_ending:
  "\<exists>t. trace (link_new ops h rq component st) = trace st @ t \<and> ending rq t"
  by (auto simp: link_new_def ending_def obtain_event_def Let_def split: prod.splits)

lemma handle_miss_ending:
  "\<exists>t. trace (handle_miss ops h rq lst component st) = trace st @ t \<and> ending rq t"
proof (cases "\<not> nxt st \<le> lst \<and> req_lflag rq \<inter> {L_CREATE, L_LINK} \<noteq> {} \<and>
    is_directory ops (cur st) (fs st)")
  case True
  then show ?thesis using link_new_ending [of ops h rq component st]
    by (simp add: handle_miss_def)
next
  case False
  then show ?thesis
    by (auto simp: handle_miss_def ending_def)
qed

lemma loop_body_Continue_walk:
  "loop_body ops lim h rq lst st = Continue st' \<Longrightarrow>
   \<exists>w. trace st' = trace st @ w \<and> list_all walk_event w"
  by (auto simp: loop_body_def Let_def split: collected.splits if_splits prod.splits)

lemma loop_body_GotoOut_ending:
  assumes "loop_body ops lim h rq lst st = GotoOut st'"
  shows "\<exists>w t. trace st' = trace st @ w @ t \<and> list_all walk_event w \<and> ending rq t"
proof (cases "collect (plb_get_char ops) (NAME_MAX lim) lst (nxt st) []")
  case (Collected p component)
  obtain t s1 where m: "match ops (cur st) component (fs st) = (t, s1)" by (cases "match ops (cur st) component (fs st)")
  let ?st1 = "emit (Match (cur st) component t) (st\<lparr>nxt := p + 1, tmp := t, fs := s1\<rparr>)"
  from assms Collected m have "st' = handle_miss ops h rq lst component ?st1" and "t = None"
    by (auto simp: loop_body_def Let_def split: if_splits)
  with handle_miss_ending [of ops h rq lst component ?st1]
  obtain e where "trace st' = trace st @ [Match (cur st) component None] @ e" "ending rq e"
    by auto
  then show ?thesis by (intro exI [of _ "[Match (cur st) component None]"] exI [of _ e]) simp
next
  case TooLong
  with assms have "trace st' = trace st @ [] @ [Answer0 ENAMETOOLONG]"
    by (auto simp: loop_body_def)
  moreover have "ending rq [Answer0 ENAMETOOLONG]" by (simp add: ending_def)
  ultimately show ?thesis by (intro exI [of _ "[]"] exI [of _ "[Answer0 ENAMETOOLONG]"]) simp
next
  case Excess
  with assms show ?thesis by (simp add: loop_body_def)
next
  case Overrun
  with assms show ?thesis by (simp add: loop_body_def)
qed

lemma lookup_loop_Continue_walk:
  "lookup_loop fuel ops lim h rq lst st = Some (Continue st') \<Longrightarrow>
   \<exists>w. trace st' = trace st @ w \<and> list_all walk_event w"
proof (induction fuel arbitrary: st)
  case 0
  then show ?case by simp
next
  case (Suc fuel)
  show ?case
  proof (cases "nxt st \<le> lst \<and> has_children ops (cur st) (fs st)")
    case False
    with Suc.prems show ?thesis by auto
  next
    case True
    with Suc.prems obtain st1 where b: "loop_body ops lim h rq lst st = Continue st1"
      and l: "lookup_loop fuel ops lim h rq lst st1 = Some (Continue st')"
      by (auto split: flow.splits)
    from loop_body_Continue_walk [OF b] Suc.IH [OF l] show ?thesis by auto
  qed
qed

lemma lookup_loop_GotoOut_ending:
  "lookup_loop fuel ops lim h rq lst st = Some (GotoOut st') \<Longrightarrow>
   \<exists>w t. trace st' = trace st @ w @ t \<and> list_all walk_event w \<and> ending rq t"
proof (induction fuel arbitrary: st)
  case 0
  then show ?case by simp
next
  case (Suc fuel)
  from Suc.prems have c: "nxt st \<le> lst \<and> has_children ops (cur st) (fs st)"
    by (auto split: if_splits)
  show ?case
  proof (cases "loop_body ops lim h rq lst st")
    case (Continue st1)
    with Suc.prems c have l: "lookup_loop fuel ops lim h rq lst st1 = Some (GotoOut st')"
      by simp
    from loop_body_Continue_walk [OF Continue] obtain w1 where
      w1: "trace st1 = trace st @ w1" "list_all walk_event w1" by blast
    from Suc.IH [OF l] obtain w t where
      "trace st' = trace st1 @ w @ t" "list_all walk_event w" "ending rq t" by blast
    with w1 show ?thesis by (intro exI [of _ "w1 @ w"] exI [of _ t]) simp
  next
    case (GotoOut st1)
    with Suc.prems c have "st1 = st'" by simp
    with GotoOut loop_body_GotoOut_ending show ?thesis by blast
  next
    case (Abort st1)
    with Suc.prems c show ?thesis by simp
  qed
qed

lemma excessive_ending:
  assumes "excessive ops lim h rq lst st = GotoOut st'"
  shows "\<exists>t. trace st' = trace st @ t \<and> ending rq t"
proof (cases "req_lflag rq \<inter> {L_CREATE, L_LINK} \<noteq> {} \<and> is_directory ops (cur st) (fs st)")
  case False
  with assms show ?thesis by (auto simp: excessive_def ending_def split: if_splits)
next
  case True
  show ?thesis
  proof (cases "collect_last (plb_get_char ops) (NAME_MAX lim) lst (nxt st) []")
    case (Collected p component)
    with assms True have "st' = link_new ops h rq component (st\<lparr>nxt := p\<rparr>)"
      by (auto simp: excessive_def split: if_splits)
    with link_new_ending [of ops h rq component "st\<lparr>nxt := p\<rparr>"] show ?thesis by simp
  qed (use assms True in \<open>auto simp: excessive_def ending_def\<close>)
qed

lemma excessive_not_Continue: "excessive ops lim h rq lst st \<noteq> Continue st'"
  by (auto simp: excessive_def split: collected.splits)

lemma handle_hit_ending:
  "\<exists>w t. trace (handle_hit ops h rq st) = trace st @ w @ t \<and> list_all walk_event w \<and> ending rq t"
proof (cases "L_PARENT \<in> req_lflag rq")
  case True
  have "\<exists>t. trace (handle_hit ops h rq st) = trace st @ [NodePut (cur st)] @ t \<and> ending rq t"
    using True by (auto simp: handle_hit_def ending_def Let_def split: prod.splits)
  then obtain t where "trace (handle_hit ops h rq st) = trace st @ [NodePut (cur st)] @ t" "ending rq t"
    by blast
  then show ?thesis by (intro exI [of _ "[NodePut (cur st)]"] exI [of _ t]) simp
next
  case False
  have "\<exists>t. trace (handle_hit ops h rq st) = trace st @ [] @ t \<and> ending rq t"
    using False by (auto simp: handle_hit_def ending_def Let_def split: prod.splits)
  then obtain t where "trace (handle_hit ops h rq st) = trace st @ [] @ t" "ending rq t"
    by blast
  then show ?thesis by (intro exI [of _ "[]"] exI [of _ t]) simp
qed

lemma trace_lookup_init_walk: "list_all walk_event (trace (lookup_init ops rq s))"
  by (simp add: lookup_init_def Let_def split: prod.splits)

lemma walk_out: "\<exists>w. trace (out ops st) = trace st @ w \<and> list_all walk_event w"
  by (simp add: trace_out list_all_iff)

lemma libfs_lookup_trace:
  assumes "libfs_lookup fuel ops lim h rq s = Some r" and "returned r"
  shows "\<exists>w t w'. final_trace r = w @ t @ w' \<and> list_all walk_event w \<and> ending rq t \<and>
           list_all walk_event w'"
proof -
  let ?lst = "lookup_last lim rq" and ?st0 = "lookup_init ops rq s"
  from assms(1) obtain res where l: "lookup_loop fuel ops lim h rq ?lst ?st0 = Some res"
    by (auto simp: libfs_lookup_def Let_def split: option.splits)
  have w0: "list_all walk_event (trace ?st0)" by (rule trace_lookup_init_walk)
  have *: "\<exists>w t. trace st' = w @ t \<and> list_all walk_event w \<and> ending rq t \<Longrightarrow>
      r = finish True (out ops st') \<Longrightarrow> ?thesis" for st'
    using walk_out [of ops st'] by (metis append.assoc finish_sel(3))
  show ?thesis
  proof (cases res)
    case (Abort st')
    with assms l show ?thesis by (auto simp: libfs_lookup_def)
  next
    case (GotoOut st')
    with assms l have r: "r = finish True (out ops st')" by (simp add: libfs_lookup_def)
    from lookup_loop_GotoOut_ending l GotoOut obtain w t where
      "trace st' = trace ?st0 @ w @ t" "list_all walk_event w" "ending rq t" by blast
    with w0 have "\<exists>w t. trace st' = w @ t \<and> list_all walk_event w \<and> ending rq t"
      by (intro exI [of _ "trace ?st0 @ w"] exI [of _ t]) simp
    then show ?thesis using r by (rule *)
  next
    case (Continue st')
    with assms l have a: "r = after_loop ops lim h rq ?lst st'" by (simp add: libfs_lookup_def)
    from lookup_loop_Continue_walk l Continue obtain w1 where
      w1: "trace st' = trace ?st0 @ w1" "list_all walk_event w1" by blast
    show ?thesis
    proof (cases "nxt st' \<le> ?lst \<and> \<not> has_children ops (cur st') (fs st')")
      case True
      with a assms(2) obtain st2 where e: "excessive ops lim h rq ?lst st' = GotoOut st2"
        and r: "r = finish True (out ops st2)"
        using excessive_not_Continue [of ops lim h rq ?lst st']
        by (cases "excessive ops lim h rq ?lst st'") (auto simp: after_loop_def)
      from excessive_ending [OF e] obtain t where "trace st2 = trace st' @ t" "ending rq t"
        by blast
      with w0 w1 have "\<exists>w t. trace st2 = w @ t \<and> list_all walk_event w \<and> ending rq t"
        by (intro exI [of _ "trace ?st0 @ w1"] exI [of _ t]) simp
      then show ?thesis using r by (rule *)
    next
      case False
      with a have r: "r = finish True (out ops (handle_hit ops h rq st'))"
        by (auto simp: after_loop_def)
      from handle_hit_ending [of ops h rq st'] obtain w t where
        "trace (handle_hit ops h rq st') = trace st' @ w @ t" "list_all walk_event w" "ending rq t"
        by blast
      with w0 w1 have "\<exists>w t. trace (handle_hit ops h rq st') = w @ t \<and> list_all walk_event w \<and> ending rq t"
        by (intro exI [of _ "trace ?st0 @ w1 @ w"] exI [of _ t]) simp
      then show ?thesis using r by (rule *)
    qed
  qed
qed

subsection \<open>Creating and linking\<close>

lemma walk_event_no_link: "list_all walk_event w \<Longrightarrow> Link p fn nm rc \<notin> set w"
  by (auto simp: list_all_iff)

lemma walk_event_not:
  "list_all walk_event w \<Longrightarrow> Destroy n \<notin> set w"
  "list_all walk_event w \<Longrightarrow> NodeGet d i n \<notin> set w"
  "list_all walk_event w \<Longrightarrow> Create d lf n \<notin> set w"
  "list_all walk_event w \<Longrightarrow> replies w = []"
proof -
  have "walk_event e \<Longrightarrow> \<not> is_answer e" for e by (cases e) simp_all
  then show "list_all walk_event w \<Longrightarrow> replies w = []"
    by (auto simp: list_all_iff replies_def filter_empty_conv)
qed (auto simp: list_all_iff)

lemma lookup_loop_Abort_walk:
  "lookup_loop fuel ops lim h rq lst st = Some (Abort st') \<Longrightarrow>
   \<exists>w. trace st' = trace st @ w \<and> list_all walk_event w"
proof (induction fuel arbitrary: st)
  case 0
  then show ?case by simp
next
  case (Suc fuel)
  from Suc.prems have c: "nxt st \<le> lst \<and> has_children ops (cur st) (fs st)"
    by (auto split: if_splits)
  show ?case
  proof (cases "loop_body ops lim h rq lst st")
    case (Continue st1)
    with Suc.prems c have l: "lookup_loop fuel ops lim h rq lst st1 = Some (Abort st')"
      by simp
    from loop_body_Continue_walk [OF Continue] Suc.IH [OF l] show ?thesis by auto
  next
    case (GotoOut st1)
    with Suc.prems c show ?thesis by simp
  next
    case (Abort st1)
    with Suc.prems c have "st1 = st'" by simp
    with Abort have "trace st' = trace st"
      by (auto simp: loop_body_def Let_def split: collected.splits if_splits prod.splits)
    then show ?thesis by simp
  qed
qed

lemma excessive_Abort_trace:
  "excessive ops lim h rq lst st = Abort st' \<Longrightarrow> trace st' = trace st"
  by (auto simp: excessive_def split: collected.splits if_splits)

lemma libfs_lookup_aborted_walk:
  assumes "libfs_lookup fuel ops lim h rq s = Some r" and "\<not> returned r"
  shows "list_all walk_event (final_trace r)"
proof -
  let ?lst = "lookup_last lim rq" and ?st0 = "lookup_init ops rq s"
  from assms(1) obtain res where l: "lookup_loop fuel ops lim h rq ?lst ?st0 = Some res"
    by (auto simp: libfs_lookup_def Let_def split: option.splits)
  have w0: "list_all walk_event (trace ?st0)" by (rule trace_lookup_init_walk)
  show ?thesis
  proof (cases res)
    case (Abort st')
    with assms l have "r = finish False st'" by (auto simp: libfs_lookup_def)
    with lookup_loop_Abort_walk l Abort w0 show ?thesis by fastforce
  next
    case (GotoOut st')
    with assms l show ?thesis by (auto simp: libfs_lookup_def)
  next
    case (Continue st')
    with assms l have a: "r = after_loop ops lim h rq ?lst st'" by (simp add: libfs_lookup_def)
    from lookup_loop_Continue_walk l Continue obtain w1 where
      w1: "trace st' = trace ?st0 @ w1" "list_all walk_event w1" by blast
    from a assms(2) obtain st2 where "excessive ops lim h rq ?lst st' = Abort st2"
      "r = finish False st2"
      by (cases "excessive ops lim h rq ?lst st'") (auto simp: after_loop_def split: if_splits)
    with excessive_Abort_trace w0 w1 show ?thesis by fastforce
  qed
qed

lemma ending_failed_link:
  assumes "ending rq t" and "Link p fn nm rc \<in> set t" and "rc \<noteq> EOK"
  shows "t = [obtain_event rq fn, Link p fn nm rc] @
             (if L_CREATE \<in> req_lflag rq then [Destroy fn] else []) @ [Answer0 rc]"
  using assms unfolding ending_def obtain_event_def
  by (elim disjE exE conjE) (auto split: if_splits)

text \<open>
  C4.  In every run in which \<^verbatim>\<open>link\<close> is called and fails with \<open>rc\<close>, the trace is:
  events of the walk; the call that obtained \<^verbatim>\<open>fn\<close> (\<^verbatim>\<open>create\<close> if \<^verbatim>\<open>L_CREATE\<close> is
  set, else \<^verbatim>\<open>node_get\<close>); the failed \<^verbatim>\<open>link\<close>; if \<^verbatim>\<open>L_CREATE\<close> is set, the
  \<^verbatim>\<open>destroy\<close> of \<^verbatim>\<open>fn\<close>; the answer \<open>rc\<close>; releases.  So a created node is destroyed
  before the one answer, which is the status of \<^verbatim>\<open>link\<close>, and without \<^verbatim>\<open>L_CREATE\<close>
  (a node resolved by index) nothing is destroyed.  \<^verbatim>\<open>link\<close> is called only from the
  two copies of the create-or-link sequence (lines 1372 and 1444).
\<close>

theorem failed_link_destroys_created_node:
  assumes "libfs_lookup fuel ops lim h rq s = Some r"
    and "Link p fn nm rc \<in> set (final_trace r)" and "rc \<noteq> EOK"
  shows "\<exists>w w'. final_trace r =
             w @ [if L_CREATE \<in> req_lflag rq then Create (req_dev rq) (req_lflag rq) fn
                  else NodeGet (req_dev rq) (req_index rq) fn,
                  Link p fn nm rc] @
             (if L_CREATE \<in> req_lflag rq then [Destroy fn] else []) @ [Answer0 rc] @ w' \<and>
           list_all walk_event w \<and> list_all walk_event w' \<and>
           replies (final_trace r) = [Answer0 rc] \<and>
           (L_CREATE \<in> req_lflag rq \<or> (\<forall>n. Destroy n \<notin> set (final_trace r)))"
proof -
  have ret: "returned r"
    using libfs_lookup_aborted_walk [OF assms(1)] assms(2) walk_event_no_link by blast
  from libfs_lookup_trace [OF assms(1) ret] obtain w t w' where
    tr: "final_trace r = w @ t @ w'" and w: "list_all walk_event w" "list_all walk_event w'"
    and e: "ending rq t" by blast
  from tr assms(2) w have "Link p fn nm rc \<in> set t"
    using walk_event_no_link by auto
  from ending_failed_link [OF e this assms(3)]
  have t: "t = [obtain_event rq fn, Link p fn nm rc] @
             (if L_CREATE \<in> req_lflag rq then [Destroy fn] else []) @ [Answer0 rc]" .
  show ?thesis
    apply (rule exI [of _ w], rule exI [of _ w'])
    using tr w t walk_event_not(1) [OF w(1)] walk_event_not(1) [OF w(2)]
      walk_event_not(4) [OF w(1)] walk_event_not(4) [OF w(2)]
    by (auto simp: obtain_event_def)
qed

theorem failed_link_destroys_created_node_witness:
  "(\<exists>r w w'. libfs_lookup 2 (ram_ops ''/a/x0000'') lim0 7 (mk_request 0 3 {L_CREATE} 0)
        (ram0\<lparr>link_status := ENOMEM\<rparr>) = Some r \<and>
      final_trace r = w @ [Create 0 {L_CREATE} (Some 3), Link (Some 1) (Some 3) ''x'' ENOMEM] @
        [Destroy (Some 3)] @ [Answer0 ENOMEM] @ w' \<and>
      list_all walk_event w \<and> list_all walk_event w' \<and>
      replies (final_trace r) = [Answer0 ENOMEM] \<and>
      destroyed (final_fs r) = [3]) \<and>
   (\<exists>r w w'. libfs_lookup 2 (ram_ops ''/a/x0000'') lim0 7 (mk_request 0 3 {L_LINK} 2)
        (ram0\<lparr>link_status := ENOMEM\<rparr>) = Some r \<and>
      final_trace r = w @ [NodeGet 0 2 (Some 2), Link (Some 1) (Some 2) ''x'' ENOMEM] @
        [Answer0 ENOMEM] @ w' \<and>
      list_all walk_event w \<and> list_all walk_event w' \<and>
      replies (final_trace r) = [Answer0 ENOMEM] \<and>
      (\<forall>n. Destroy n \<notin> set (final_trace r)) \<and>
      destroyed (final_fs r) = [])"
proof -
  let ?ops = "ram_ops ''/a/x0000''" and ?s = "ram0\<lparr>link_status := ENOMEM\<rparr>"
  let ?r1 = "\<lparr>returned = True,
      final_fs = ?s\<lparr>fresh := 4, destroyed := [3], released := [Some 0, Some 1]\<rparr>,
      final_trace = [RootGet 0 (Some 0), Match (Some 0) ''a'' (Some 1), Match (Some 1) ''x'' None,
        Create 0 {L_CREATE} (Some 3), Link (Some 1) (Some 3) ''x'' ENOMEM, Destroy (Some 3),
        Answer0 ENOMEM, NodePut (Some 0), NodePut (Some 1)]\<rparr>"
  let ?r2 = "\<lparr>returned = True, final_fs = ?s\<lparr>released := [Some 0, Some 1]\<rparr>,
      final_trace = [RootGet 0 (Some 0), Match (Some 0) ''a'' (Some 1), Match (Some 1) ''x'' None,
        NodeGet 0 2 (Some 2), Link (Some 1) (Some 2) ''x'' ENOMEM,
        Answer0 ENOMEM, NodePut (Some 0), NodePut (Some 1)]\<rparr>"
  have a1: "libfs_lookup 2 ?ops lim0 7 (mk_request 0 3 {L_CREATE} 0) ?s = Some ?r1"
    by code_simp
  have a2: "Link (Some 1) (Some 3) ''x'' ENOMEM \<in> set (final_trace ?r1)" by simp
  have b1: "libfs_lookup 2 ?ops lim0 7 (mk_request 0 3 {L_LINK} 2) ?s = Some ?r2"
    by code_simp
  have b2: "Link (Some 1) (Some 2) ''x'' ENOMEM \<in> set (final_trace ?r2)" by simp
  have ne: "ENOMEM \<noteq> EOK" by simp
  have d: "destroyed (final_fs ?r1) = [3]" "destroyed (final_fs ?r2) = []"
    by (simp_all add: ram0_def)
  note A = failed_link_destroys_created_node [OF a1 a2 ne]
  note B = failed_link_destroys_created_node [OF b1 b2 ne]
  have A': "\<exists>r w w'. libfs_lookup 2 ?ops lim0 7 (mk_request 0 3 {L_CREATE} 0) ?s = Some r \<and>
      final_trace r = w @ [Create 0 {L_CREATE} (Some 3), Link (Some 1) (Some 3) ''x'' ENOMEM] @
        [Destroy (Some 3)] @ [Answer0 ENOMEM] @ w' \<and>
      list_all walk_event w \<and> list_all walk_event w' \<and>
      replies (final_trace r) = [Answer0 ENOMEM] \<and>
      destroyed (final_fs r) = [3]"
    using A a1 d(1) unfolding mk_request_def by (intro exI [of _ ?r1]) auto
  have B': "\<exists>r w w'. libfs_lookup 2 ?ops lim0 7 (mk_request 0 3 {L_LINK} 2) ?s = Some r \<and>
      final_trace r = w @ [NodeGet 0 2 (Some 2), Link (Some 1) (Some 2) ''x'' ENOMEM] @
        [Answer0 ENOMEM] @ w' \<and>
      list_all walk_event w \<and> list_all walk_event w' \<and>
      replies (final_trace r) = [Answer0 ENOMEM] \<and>
      (\<forall>n. Destroy n \<notin> set (final_trace r)) \<and>
      destroyed (final_fs r) = []"
    using B b1 d(2) unfolding mk_request_def by (intro exI [of _ ?r2]) auto
  show ?thesis using A' B' by (rule conjI)
qed

lemma ending_create:
  assumes "ending rq t" and "L_CREATE \<in> req_lflag rq"
  shows "NodeGet d i n \<notin> set t"
    and "Link p fn nm rc \<in> set t \<Longrightarrow>
         \<exists>u u'. t = u @ [Create (req_dev rq) (req_lflag rq) fn, Link p fn nm rc] @ u'"
  using assms unfolding ending_def obtain_event_def
  by (elim disjE exE conjE; force)+

text \<open>
  C10.  With \<^verbatim>\<open>L_CREATE\<close> and \<^verbatim>\<open>L_LINK\<close> both set, a missing last component makes
  the function call \<^verbatim>\<open>create\<close> with the request's device and flags, at both places
  where it can be found missing.  In the loop (lines 1349-1368): after any number \<open>n\<close>
  of levels descended, if the next component is collected, \<^verbatim>\<open>match\<close> returns
  \<^verbatim>\<open>NULL\<close> for it, nothing remains after it and \<^verbatim>\<open>cur\<close> is a directory, the
  function returns and its trace is the walk so far, the failed \<^verbatim>\<open>match\<close>, the call of
  \<^verbatim>\<open>create\<close> with what the backend returned for it, and what follows.  After the loop
  (lines 1410-1440): if \<^verbatim>\<open>cur\<close> is a directory without children and the one remaining
  component is collected, the function returns and its trace is the walk so far, the
  call of \<^verbatim>\<open>create\<close>, and what follows.  And no run at all calls \<^verbatim>\<open>node_get\<close> (which
  would resolve the link target index), while every node passed to \<^verbatim>\<open>link\<close> is the
  one the call of \<^verbatim>\<open>create\<close> just before it returned.
\<close>

theorem create_takes_precedence:
  assumes "L_CREATE \<in> req_lflag rq" and "L_LINK \<in> req_lflag rq"
  shows
    "(descend n ops lim h rq (lookup_last lim rq) (lookup_init ops rq s) = Some st \<and>
      nxt st \<le> lookup_last lim rq \<and> has_children ops (cur st) (fs st) \<and>
      collect (plb_get_char ops) (NAME_MAX lim) (lookup_last lim rq) (nxt st) [] =
        Collected p component \<and>
      component \<noteq> [] \<and> match ops (cur st) component (fs st) = (None, s1) \<and>
      \<not> p + 1 \<le> lookup_last lim rq \<and> is_directory ops (cur st) s1 \<longrightarrow>
        (\<exists>r post. libfs_lookup (n + Suc k) ops lim h rq s = Some r \<and> returned r \<and>
           final_trace r = trace st @
             [Match (cur st) component None,
              Create (req_dev rq) (req_lflag rq)
                (fst (create ops (req_dev rq) (req_lflag rq) s1))] @ post)) \<and>
     (lookup_loop fuel ops lim h rq (lookup_last lim rq) (lookup_init ops rq s) =
        Some (Continue st') \<and>
      nxt st' \<le> lookup_last lim rq \<and> \<not> has_children ops (cur st') (fs st') \<and>
      is_directory ops (cur st') (fs st') \<and>
      collect_last (plb_get_char ops) (NAME_MAX lim) (lookup_last lim rq) (nxt st') [] =
        Collected p' component' \<and>
      component' \<noteq> [] \<longrightarrow>
        (\<exists>r post. libfs_lookup fuel ops lim h rq s = Some r \<and> returned r \<and>
           final_trace r = trace st' @
             [Create (req_dev rq) (req_lflag rq)
                (fst (create ops (req_dev rq) (req_lflag rq) (fs st')))] @ post)) \<and>
     (\<forall>fuel s r. libfs_lookup fuel ops lim h rq s = Some r \<longrightarrow>
        (\<forall>d i n. NodeGet d i n \<notin> set (final_trace r)) \<and>
        (\<forall>p fn nm rc. Link p fn nm rc \<in> set (final_trace r) \<longrightarrow>
           (\<exists>u u'. final_trace r =
              u @ [Create (req_dev rq) (req_lflag rq) fn, Link p fn nm rc] @ u')))"
proof (intro conjI allI impI)
  let ?lst = "lookup_last lim rq"
  assume a: "descend n ops lim h rq ?lst (lookup_init ops rq s) = Some st \<and>
      nxt st \<le> ?lst \<and> has_children ops (cur st) (fs st) \<and>
      collect (plb_get_char ops) (NAME_MAX lim) ?lst (nxt st) [] = Collected p component \<and>
      component \<noteq> [] \<and> match ops (cur st) component (fs st) = (None, s1) \<and>
      \<not> p + 1 \<le> ?lst \<and> is_directory ops (cur st) s1"
  let ?st1 = "emit (Match (cur st) component None) (st\<lparr>nxt := p + 1, tmp := None, fs := s1\<rparr>)"
  let ?st2 = "link_new ops h rq component ?st1"
  have f: "req_lflag rq \<inter> {L_CREATE, L_LINK} \<noteq> {}" using assms(1) by auto
  have b: "loop_body ops lim h rq ?lst st = GotoOut ?st2"
    using a f by (simp add: loop_body_def handle_miss_def Let_def)
  have l: "lookup_loop (n + Suc k) ops lim h rq ?lst (lookup_init ops rq s) = Some (GotoOut ?st2)"
    using lookup_loop_descend [of n ops lim h rq ?lst "lookup_init ops rq s" st "Suc k"] a b
    by simp
  have "\<exists>post. trace ?st2 = trace ?st1 @ [Create (req_dev rq) (req_lflag rq)
          (fst (create ops (req_dev rq) (req_lflag rq) (fs ?st1)))] @ post"
    using assms(1) by (auto simp: link_new_def Let_def split: prod.splits)
  then obtain post where
    t: "trace ?st2 = trace ?st1 @ [Create (req_dev rq) (req_lflag rq)
          (fst (create ops (req_dev rq) (req_lflag rq) (fs ?st1)))] @ post" by blast
  from walk_out [of ops ?st2] obtain w where w: "trace (out ops ?st2) = trace ?st2 @ w" by blast
  have "libfs_lookup (n + Suc k) ops lim h rq s = Some (finish True (out ops ?st2))"
    using l by (simp add: libfs_lookup_def Let_def)
  moreover have "final_trace (finish True (out ops ?st2)) = trace st @
      [Match (cur st) component None,
       Create (req_dev rq) (req_lflag rq) (fst (create ops (req_dev rq) (req_lflag rq) s1))] @
      (post @ w)"
    using t w by simp
  ultimately show "\<exists>r post. libfs_lookup (n + Suc k) ops lim h rq s = Some r \<and> returned r \<and>
           final_trace r = trace st @
             [Match (cur st) component None,
              Create (req_dev rq) (req_lflag rq)
                (fst (create ops (req_dev rq) (req_lflag rq) s1))] @ post"
    by (intro exI [of _ "finish True (out ops ?st2)"] exI [of _ "post @ w"]) simp
next
  let ?lst = "lookup_last lim rq"
  assume a: "lookup_loop fuel ops lim h rq ?lst (lookup_init ops rq s) = Some (Continue st') \<and>
      nxt st' \<le> ?lst \<and> \<not> has_children ops (cur st') (fs st') \<and>
      is_directory ops (cur st') (fs st') \<and>
      collect_last (plb_get_char ops) (NAME_MAX lim) ?lst (nxt st') [] =
        Collected p' component' \<and>
      component' \<noteq> []"
  let ?st2 = "link_new ops h rq component' (st'\<lparr>nxt := p'\<rparr>)"
  have f: "req_lflag rq \<inter> {L_CREATE, L_LINK} \<noteq> {}" using assms(1) by auto
  have e: "excessive ops lim h rq ?lst st' = GotoOut ?st2"
    using a f by (simp add: excessive_def)
  from a have l: "lookup_loop fuel ops lim h rq ?lst (lookup_init ops rq s) = Some (Continue st')"
    and c: "nxt st' \<le> ?lst" "\<not> has_children ops (cur st') (fs st')" by simp_all
  note r = libfs_lookup_excess [OF l c e]
  have "\<exists>post. trace ?st2 = trace st' @ [Create (req_dev rq) (req_lflag rq)
          (fst (create ops (req_dev rq) (req_lflag rq) (fs st')))] @ post"
    using assms(1) by (auto simp: link_new_def Let_def split: prod.splits)
  then obtain post where
    t: "trace ?st2 = trace st' @ [Create (req_dev rq) (req_lflag rq)
          (fst (create ops (req_dev rq) (req_lflag rq) (fs st')))] @ post" by blast
  from walk_out [of ops ?st2] obtain w where w: "trace (out ops ?st2) = trace ?st2 @ w" by blast
  have "final_trace (finish True (out ops ?st2)) = trace st' @
      [Create (req_dev rq) (req_lflag rq) (fst (create ops (req_dev rq) (req_lflag rq) (fs st')))] @
      (post @ w)"
    using t w by simp
  with r show "\<exists>r post. libfs_lookup fuel ops lim h rq s = Some r \<and> returned r \<and>
           final_trace r = trace st' @
             [Create (req_dev rq) (req_lflag rq)
                (fst (create ops (req_dev rq) (req_lflag rq) (fs st')))] @ post"
    by (intro exI [of _ "finish True (out ops ?st2)"] exI [of _ "post @ w"]) simp
next
  fix fuel s r d i n
  assume run: "libfs_lookup fuel ops lim h rq s = Some r"
  show "NodeGet d i n \<notin> set (final_trace r)"
  proof (cases "returned r")
    case False
    from libfs_lookup_aborted_walk [OF run False] show ?thesis by (rule walk_event_not(2))
  next
    case True
    from libfs_lookup_trace [OF run True] obtain w t w' where
      "final_trace r = w @ t @ w'" "list_all walk_event w" "ending rq t" "list_all walk_event w'"
      by blast
    then show ?thesis
      using ending_create(1) [OF _ assms(1)] walk_event_not(2) by auto
  qed
next
  fix fuel s r p fn nm rc
  assume run: "libfs_lookup fuel ops lim h rq s = Some r"
    and l: "Link p fn nm rc \<in> set (final_trace r)"
  have ret: "returned r"
    using libfs_lookup_aborted_walk [OF run] l walk_event_no_link by blast
  from libfs_lookup_trace [OF run ret] obtain w t w' where
    tr: "final_trace r = w @ t @ w'" and w: "list_all walk_event w" "list_all walk_event w'"
    and e: "ending rq t" by blast
  from tr l w have "Link p fn nm rc \<in> set t"
    using walk_event_no_link by auto
  from ending_create(2) [OF e assms(1) this] obtain u u' where
    "t = u @ [Create (req_dev rq) (req_lflag rq) fn, Link p fn nm rc] @ u'" by blast
  with tr have "final_trace r =
      (w @ u) @ [Create (req_dev rq) (req_lflag rq) fn, Link p fn nm rc] @ (u' @ w')"
    by simp
  then show "\<exists>u u'. final_trace r =
      u @ [Create (req_dev rq) (req_lflag rq) fn, Link p fn nm rc] @ u'"
    by blast
qed

theorem create_takes_precedence_witness:
  "(\<exists>r. libfs_lookup (1 + Suc 0) (ram_ops ''/a/x0000'') lim0 7
           (mk_request 0 3 {L_CREATE, L_LINK} 2) ram0 = Some r \<and> returned r \<and>
         final_trace r =
           [RootGet 0 (Some 0), Match (Some 0) ''a'' (Some 1), Match (Some 1) ''x'' None,
            Create 0 {L_CREATE, L_LINK} (Some 3), Link (Some 1) (Some 3) ''x'' EOK,
            Answer5 EOK 7 0 3 0 1, NodePut (Some 3), NodePut (Some 0), NodePut (Some 1)] \<and>
         (\<forall>d i n. NodeGet d i n \<notin> set (final_trace r)) \<and>
         (\<exists>u u'. final_trace r =
            u @ [Create 0 {L_CREATE, L_LINK} (Some 3), Link (Some 1) (Some 3) ''x'' EOK] @ u')) \<and>
   (\<exists>r. libfs_lookup 1 (ram_ops ''/x000000'') lim0 7
           (mk_request 0 1 {L_CREATE, L_LINK} 2) (ram0\<lparr>dentries := []\<rparr>) = Some r \<and>
         returned r \<and>
         final_trace r =
           [RootGet 0 (Some 0), Create 0 {L_CREATE, L_LINK} (Some 3),
            Link (Some 0) (Some 3) ''x'' EOK, Answer5 EOK 7 0 3 0 1, NodePut (Some 3),
            NodePut (Some 0)])"
proof -
  let ?ops = "ram_ops ''/a/x0000''" and ?rq = "mk_request 0 3 {L_CREATE, L_LINK} 2"
  let ?ops2 = "ram_ops ''/x000000''" and ?rq2 = "mk_request 0 1 {L_CREATE, L_LINK} 2"
  let ?s2 = "ram0\<lparr>dentries := []\<rparr>"
  let ?st = "\<lparr>nxt = 3, par = Some 0, cur = Some 1, tmp = None, fs = ram0,
              trace = [RootGet 0 (Some 0), Match (Some 0) ''a'' (Some 1)]\<rparr>"
  let ?st' = "\<lparr>nxt = 1, par = None, cur = Some 0, tmp = None, fs = ?s2,
               trace = [RootGet 0 (Some 0)]\<rparr>"
  let ?t1 = "[RootGet 0 (Some 0), Match (Some 0) ''a'' (Some 1), Match (Some 1) ''x'' None,
        Create 0 {L_CREATE, L_LINK} (Some 3), Link (Some 1) (Some 3) ''x'' EOK,
        Answer5 EOK 7 0 3 0 1, NodePut (Some 3), NodePut (Some 0), NodePut (Some 1)]"
  let ?t2 = "[RootGet 0 (Some 0), Create 0 {L_CREATE, L_LINK} (Some 3),
        Link (Some 0) (Some 3) ''x'' EOK, Answer5 EOK 7 0 3 0 1, NodePut (Some 3),
        NodePut (Some 0)]"
  have f: "L_CREATE \<in> req_lflag ?rq" "L_LINK \<in> req_lflag ?rq"
    "L_CREATE \<in> req_lflag ?rq2" "L_LINK \<in> req_lflag ?rq2"
    by (simp_all add: mk_request_def)
  have a: "descend 1 ?ops lim0 7 ?rq (lookup_last lim0 ?rq) (lookup_init ?ops ?rq ram0) = Some ?st"
    "nxt ?st \<le> lookup_last lim0 ?rq" "has_children ?ops (cur ?st) (fs ?st)"
    "collect (plb_get_char ?ops) (NAME_MAX lim0) (lookup_last lim0 ?rq) (nxt ?st) [] =
       Collected 4 ''x''"
    "match ?ops (cur ?st) ''x'' (fs ?st) = (None, ram0)"
    "\<not> (4 :: 32 word) + 1 \<le> lookup_last lim0 ?rq" "is_directory ?ops (cur ?st) ram0"
    by code_simp+
  have b: "lookup_loop 1 ?ops2 lim0 7 ?rq2 (lookup_last lim0 ?rq2) (lookup_init ?ops2 ?rq2 ?s2) =
       Some (Continue ?st')"
    "nxt ?st' \<le> lookup_last lim0 ?rq2" "\<not> has_children ?ops2 (cur ?st') (fs ?st')"
    "is_directory ?ops2 (cur ?st') (fs ?st')"
    "collect_last (plb_get_char ?ops2) (NAME_MAX lim0) (lookup_last lim0 ?rq2) (nxt ?st') [] =
       Collected 2 ''x''"
    by code_simp+
  have run1: "map_option final_trace (libfs_lookup (1 + Suc 0) ?ops lim0 7 ?rq ram0) = Some ?t1"
    by code_simp
  have run2: "map_option final_trace (libfs_lookup 1 ?ops2 lim0 7 ?rq2 ?s2) = Some ?t2"
    by code_simp
  note T1 = create_takes_precedence [OF f(1,2), where ops = ?ops and lim = lim0 and h = 7]
  note T2 = create_takes_precedence [OF f(3,4), where ops = ?ops2 and lim = lim0 and h = 7]
  from T1 [where n = 1 and s = ram0 and st = ?st and p = 4 and component = "''x''"
      and ?s1.0 = ram0 and k = 0, THEN conjunct1] a
  obtain r post where r: "libfs_lookup (1 + Suc 0) ?ops lim0 7 ?rq ram0 = Some r" "returned r"
    "final_trace r = trace ?st @ [Match (cur ?st) ''x'' None,
       Create (req_dev ?rq) (req_lflag ?rq) (fst (create ?ops (req_dev ?rq) (req_lflag ?rq) ram0))] @ post"
    by auto
  from r(1) run1 have t1: "final_trace r = ?t1" by simp
  have l: "Link (Some 1) (Some 3) ''x'' EOK \<in> set (final_trace r)" using t1 by simp
  from T1 [THEN conjunct2, THEN conjunct2] r(1) l
  have g: "(\<forall>d i n. NodeGet d i n \<notin> set (final_trace r)) \<and>
     (\<exists>u u'. final_trace r =
        u @ [Create (req_dev ?rq) (req_lflag ?rq) (Some 3), Link (Some 1) (Some 3) ''x'' EOK] @ u')"
    by blast
  have q: "req_dev ?rq = 0" "req_lflag ?rq = {L_CREATE, L_LINK}" by (simp_all add: mk_request_def)
  have W1: "\<exists>r. libfs_lookup (1 + Suc 0) ?ops lim0 7 ?rq ram0 = Some r \<and> returned r \<and>
         final_trace r = ?t1 \<and>
         (\<forall>d i n. NodeGet d i n \<notin> set (final_trace r)) \<and>
         (\<exists>u u'. final_trace r =
            u @ [Create 0 {L_CREATE, L_LINK} (Some 3), Link (Some 1) (Some 3) ''x'' EOK] @ u')"
    using r(1,2) t1 g unfolding q by (intro exI [of _ r] conjI) blast+
  from T2 [where fuel = 1 and s = ?s2 and st' = ?st' and p' = 2 and component' = "''x''",
      THEN conjunct2, THEN conjunct1] b
  obtain r' where r': "libfs_lookup 1 ?ops2 lim0 7 ?rq2 ?s2 = Some r'" "returned r'"
    by auto
  from r'(1) run2 have t2: "final_trace r' = ?t2" by simp
  have W2: "\<exists>r. libfs_lookup 1 ?ops2 lim0 7 ?rq2 ?s2 = Some r \<and> returned r \<and>
      final_trace r = ?t2"
    using r' t2 by blast
  show ?thesis using W1 W2 by (rule conjI)
qed

subsection \<open>A miss before the last component\<close>

lemma descend_walk:
  "descend n ops lim h rq lst st = Some st' \<Longrightarrow>
   \<exists>w. trace st' = trace st @ w \<and> list_all walk_event w"
proof (induction n arbitrary: st)
  case 0
  then show ?case by simp
next
  case (Suc n)
  from Suc.prems obtain st1 where b: "loop_body ops lim h rq lst st = Continue st1"
    and l: "descend n ops lim h rq lst st1 = Some st'"
    by (auto split: if_splits flow.splits)
  from loop_body_Continue_walk [OF b] Suc.IH [OF l] show ?case by auto
qed

lemma descend_init_walk:
  "descend n ops lim h rq lst (lookup_init ops rq s) = Some st \<Longrightarrow> list_all walk_event (trace st)"
  using descend_walk [of n ops lim h rq lst "lookup_init ops rq s" st]
    trace_lookup_init_walk [of ops rq s] by auto

text \<open>
  C5.  When a component does not match a child of the current node and characters
  remain after it, the lookup fails with \<^verbatim>\<open>ENOENT\<close> and creates nothing, whatever the
  flags of the request are.  After any number \<open>n\<close> of levels descended, if the next
  component is collected, \<^verbatim>\<open>match\<close> returns \<^verbatim>\<open>NULL\<close> for it (leaving the backend in
  the state \<open>s1\<close>) and \<^verbatim>\<open>next\<close> is still within the range, then the function
  returns, and what it has done is: the walk so far, which consists of \<^verbatim>\<open>root_get\<close>,
  \<^verbatim>\<open>match\<close> and \<^verbatim>\<open>node_put\<close> calls only; the failed \<^verbatim>\<open>match\<close>; the answer
  \<^verbatim>\<open>ENOENT\<close>; the release of \<^verbatim>\<open>par\<close> and \<^verbatim>\<open>cur\<close>.  So there is no call of
  \<^verbatim>\<open>create\<close>, \<^verbatim>\<open>node_get\<close> or \<^verbatim>\<open>link\<close>, the backend is left in the state
  \<open>s1\<close> but for the releases, and \<^verbatim>\<open>ENOENT\<close> is the only answer.
\<close>

theorem intermediate_miss_not_found:
  assumes "descend n ops lim h rq (lookup_last lim rq) (lookup_init ops rq s) = Some st"
    and "nxt st \<le> lookup_last lim rq" and "has_children ops (cur st) (fs st)"
    and "collect (plb_get_char ops) (NAME_MAX lim) (lookup_last lim rq) (nxt st) [] =
           Collected p component"
    and "component \<noteq> []"
    and "match ops (cur st) component (fs st) = (None, s1)"
    and "p + 1 \<le> lookup_last lim rq"
  shows "libfs_lookup (n + Suc k) ops lim h rq s =
           Some \<lparr>returned = True,
                 final_fs = fold (node_put ops) (filter (\<lambda>n. n \<noteq> None) [par st, cur st]) s1,
                 final_trace = trace st @ [Match (cur st) component None, Answer0 ENOENT] @
                   map NodePut (filter (\<lambda>n. n \<noteq> None) [par st, cur st])\<rparr> \<and>
         list_all walk_event (trace st) \<and>
         replies (trace st @ [Match (cur st) component None, Answer0 ENOENT] @
                   map NodePut (filter (\<lambda>n. n \<noteq> None) [par st, cur st])) = [Answer0 ENOENT]"
proof -
  let ?st1 = "emit (Match (cur st) component None) (st\<lparr>nxt := p + 1, tmp := None, fs := s1\<rparr>)"
  have b: "loop_body ops lim h rq (lookup_last lim rq) st = GotoOut (ipc_answer_0 ENOENT ?st1)"
    using assms(4-7) by (simp add: loop_body_def handle_miss_def Let_def)
  have l: "lookup_loop (n + Suc k) ops lim h rq (lookup_last lim rq) (lookup_init ops rq s) =
          Some (GotoOut (ipc_answer_0 ENOENT ?st1))"
    using lookup_loop_descend [OF assms(1), of "Suc k"] assms(2,3) b by simp
  have w: "list_all walk_event (trace st)" using assms(1) by (rule descend_init_walk)
  have r: "replies (trace st) = []" using w by (rule walk_event_not(4))
  have 1: "libfs_lookup (n + Suc k) ops lim h rq s =
           Some \<lparr>returned = True,
                 final_fs = fold (node_put ops) (filter (\<lambda>n. n \<noteq> None) [par st, cur st]) s1,
                 final_trace = trace st @ [Match (cur st) component None, Answer0 ENOENT] @
                   map NodePut (filter (\<lambda>n. n \<noteq> None) [par st, cur st])\<rparr>"
    using l by (simp add: libfs_lookup_def Let_def finish_def out_def)
  have 3: "replies (trace st @ [Match (cur st) component None, Answer0 ENOENT] @
                   map NodePut (filter (\<lambda>n. n \<noteq> None) [par st, cur st])) = [Answer0 ENOENT]"
    using r by simp
  show ?thesis using 1 w 3 by (intro conjI)
qed

theorem intermediate_miss_not_found_witness:
  "libfs_lookup (1 + Suc 0) (ram_ops ''/a/x/y00'') lim0 7
          (mk_request 0 5 {L_CREATE, L_LINK} 2) ram0 =
     Some \<lparr>returned = True,
           final_fs = ram0\<lparr>released := [Some 0, Some 1]\<rparr>,
           final_trace = [RootGet 0 (Some 0), Match (Some 0) ''a'' (Some 1),
             Match (Some 1) ''x'' None, Answer0 ENOENT, NodePut (Some 0), NodePut (Some 1)]\<rparr>"
proof -
  let ?ops = "ram_ops ''/a/x/y00''" and ?rq = "mk_request 0 5 {L_CREATE, L_LINK} 2"
  let ?st = "\<lparr>nxt = 3, par = Some 0, cur = Some 1, tmp = None, fs = ram0,
              trace = [RootGet 0 (Some 0), Match (Some 0) ''a'' (Some 1)]\<rparr>"
  have h1: "descend 1 ?ops lim0 7 ?rq (lookup_last lim0 ?rq) (lookup_init ?ops ?rq ram0) = Some ?st"
    by code_simp
  have h2: "nxt ?st \<le> lookup_last lim0 ?rq" by code_simp
  have h3: "has_children ?ops (cur ?st) (fs ?st)" by code_simp
  have h4: "collect (plb_get_char ?ops) (NAME_MAX lim0) (lookup_last lim0 ?rq) (nxt ?st) [] =
              Collected 4 ''x''" by code_simp
  have h5: "''x'' \<noteq> []" by simp
  have h6: "match ?ops (cur ?st) ''x'' (fs ?st) = (None, ram0)" by code_simp
  have h7: "(4 :: 32 word) + 1 \<le> lookup_last lim0 ?rq" by code_simp
  have p: "node_put ?ops = (\<lambda>n s. s\<lparr>released := released s @ [n]\<rparr>)" by (simp add: ram_ops_def)
  have e: "released ram0 = []" by (simp add: ram0_def)
  have run: "map_option final_trace (libfs_lookup (1 + Suc 0) ?ops lim0 7 ?rq ram0) =
      Some [RootGet 0 (Some 0), Match (Some 0) ''a'' (Some 1), Match (Some 1) ''x'' None,
            Answer0 ENOENT, NodePut (Some 0), NodePut (Some 1)]"
    "map_option (released \<circ> final_fs) (libfs_lookup (1 + Suc 0) ?ops lim0 7 ?rq ram0) =
      Some [Some 0, Some 1]"
    by code_simp+
  from intermediate_miss_not_found [OF h1 h2 h3 h4 h5 h6 h7, of 0, THEN conjunct1] run
  show ?thesis by (simp add: p e)
qed

subsection \<open>The length of a component\<close>

lemma component_at_Suc:
  "component_at g lst p (Suc k) \<longleftrightarrow>
   p \<le> lst \<and> g p \<noteq> CHR ''/'' \<and> component_at g lst (p + 1) k"
proof -
  have "(\<forall>i<Suc k. P i) \<longleftrightarrow> P 0 \<and> (\<forall>i<k. P (Suc i))" for P
    using less_Suc_eq_0_disj by auto
  then show ?thesis
    by (simp add: component_at_def add.assoc)
qed

lemma collect_too_long:
  "length component + k = N \<Longrightarrow> 0 < k \<Longrightarrow> component_at g lst p k \<Longrightarrow>
   collect g N lst p component = TooLong"
proof (induction k arbitrary: p component)
  case 0
  then show ?case by simp
next
  case (Suc k)
  from Suc.prems(3) have h: "p \<le> lst" "g p \<noteq> CHR ''/''" "component_at g lst (p + 1) k"
    by (simp_all add: component_at_Suc)
  show ?case
  proof (cases k)
    case 0
    with Suc.prems(1) h show ?thesis by (subst collect.simps) simp
  next
    case (Suc j)
    with Suc.prems(1) have "length (component @ [g p]) + k = N" "0 < k" by simp_all
    from Suc.IH [OF this h(3)] Suc.prems(1) Suc h show ?thesis
      by (subst collect.simps) simp
  qed
qed

lemma collect_last_too_long:
  "length component + k = N \<Longrightarrow> 0 < k \<Longrightarrow> component_at g lst p k \<Longrightarrow>
   collect_last g N lst p component = TooLong"
proof (induction k arbitrary: p component)
  case 0
  then show ?case by simp
next
  case (Suc k)
  from Suc.prems(3) have h: "p \<le> lst" "g p \<noteq> CHR ''/''" "component_at g lst (p + 1) k"
    by (simp_all add: component_at_Suc)
  show ?case
  proof (cases k)
    case 0
    with Suc.prems(1) h show ?thesis by (subst collect_last.simps) simp
  next
    case (Suc j)
    with Suc.prems(1) have "length (component @ [g p]) + k = N" "0 < k" by simp_all
    from Suc.IH [OF this h(3)] Suc.prems(1) Suc h show ?thesis
      by (subst collect_last.simps) simp
  qed
qed

lemma map_upt_shift:
  "map (\<lambda>i. g (p + of_nat i)) [0..<Suc k] = g p # map (\<lambda>i. g (p + 1 + of_nat i)) [0..<k]"
proof -
  have "[0..<Suc k] = 0 # map Suc [0..<k]"
    by (simp add: upt_conv_Cons map_Suc_upt del: upt_Suc)
  then show ?thesis by (simp add: comp_def add.assoc del: upt_Suc)
qed

lemma collect_short:
  "length component + k < N \<Longrightarrow> component_at g lst p k \<Longrightarrow>
   \<not> (p + of_nat k \<le> lst \<and> g (p + of_nat k) \<noteq> CHR ''/'') \<Longrightarrow>
   collect g N lst p component =
     Collected (p + of_nat k) (component @ map (\<lambda>i. g (p + of_nat i)) [0..<k])"
proof (induction k arbitrary: p component)
  case 0
  then show ?case by (subst collect.simps) auto
next
  case (Suc k)
  from Suc.prems(2) have h: "p \<le> lst" "g p \<noteq> CHR ''/''" "component_at g lst (p + 1) k"
    by (simp_all add: component_at_Suc)
  have l: "length (component @ [g p]) + k < N" using Suc.prems(1) by simp
  have e: "\<not> (p + 1 + of_nat k \<le> lst \<and> g (p + 1 + of_nat k) \<noteq> CHR ''/'')"
    using Suc.prems(3) by (simp add: add.assoc)
  from Suc.IH [OF l h(3) e] Suc.prems(1) h show ?case
    by (subst collect.simps) (simp add: map_upt_shift add.assoc del: upt_Suc)
qed

lemma collect_last_short:
  "length component + k < N \<Longrightarrow> component_at g lst p k \<Longrightarrow>
   \<not> p + of_nat k \<le> lst \<Longrightarrow>
   collect_last g N lst p component =
     Collected (p + of_nat k) (component @ map (\<lambda>i. g (p + of_nat i)) [0..<k])"
proof (induction k arbitrary: p component)
  case 0
  then show ?case by (subst collect_last.simps) auto
next
  case (Suc k)
  from Suc.prems(2) have h: "p \<le> lst" "g p \<noteq> CHR ''/''" "component_at g lst (p + 1) k"
    by (simp_all add: component_at_Suc)
  have l: "length (component @ [g p]) + k < N" using Suc.prems(1) by simp
  have e: "\<not> p + 1 + of_nat k \<le> lst"
    using Suc.prems(3) by (simp add: add.assoc)
  from Suc.IH [OF l h(3) e] Suc.prems(1) h show ?case
    by (subst collect_last.simps) (simp add: map_upt_shift add.assoc del: upt_Suc)
qed

subsection \<open>The registration handshake\<close>

text \<open>
  C9 (the code does not do this).  The code of the first failing step is to be
  propagated.  The code drops the status of the request for the callback connection
  (step 3, \<^verbatim>\<open>ipc_connect_to_me\<close>, line 1256), while it checks the status of the steps
  before and after it: when that request fails with \<^verbatim>\<open>ENOMEM\<close> and all other steps
  succeed, \<^verbatim>\<open>fs_register\<close> returns the status of the answer, \<^verbatim>\<open>EOK\<close>, not the code
  of the step that failed.
\<close>

theorem callback_failure_not_propagated:
  "fst (fs_register (env0\<lparr>connect_rc := ENOMEM\<rparr>) reg0) = EOK \<and>
   handshake_status (env0\<lparr>connect_rc := ENOMEM\<rparr>) = ENOMEM \<and>
   fst (fs_register (env0\<lparr>connect_rc := ENOMEM\<rparr>) reg0) \<noteq>
     handshake_status (env0\<lparr>connect_rc := ENOMEM\<rparr>)"
  by (simp add: fs_register_def handshake_status_def first_failure_def env0_def reg0_def)

text \<open>
  What the code does on every input.  \<^verbatim>\<open>fs_register\<close> returns the code of the
  first failing step among the steps whose status it examines (the transfer of the
  descriptor, the reservation of the page, for which the code is \<^verbatim>\<open>ENOMEM\<close>, and the
  request to share the buffer), and the status of the answer if none of them fails.  On every path the pending
  registration call is awaited exactly once, after all the calls to VFS made so far;
  on the three failure paths nothing follows it before the return.
\<close>

theorem fs_register_awaits_and_propagates:
  "fst (fs_register env reg) =
     (if data_write_rc env \<noteq> EOK then data_write_rc env
      else if mappable_page env = None then ENOMEM
      else if share_rc env \<noteq> EOK then share_rc env
      else answer_retval env) \<and>
   (\<exists>calls post. snd (snd (fs_register env reg)) = SendRegister # calls @ [WaitFor] @ post \<and>
      WaitFor \<notin> set calls \<and> WaitFor \<notin> set post \<and>
      post = (if data_write_rc env = EOK \<and> mappable_page env \<noteq> None \<and> share_rc env = EOK
              then [NewConnection (connect_phonehash env), SetClientConnection] else []))"
  by (auto simp: fs_register_def Let_def split: option.splits)

theorem fs_register_awaits_and_propagates_witness:
  "fst (fs_register (env0\<lparr>share_rc := ENOENT\<rparr>) reg0) = ENOENT \<and>
   snd (snd (fs_register (env0\<lparr>share_rc := ENOENT\<rparr>) reg0)) =
     SendRegister # [DataWriteStart, ConnectToMe, GetMappablePage, ShareInStart 4096] @
     [WaitFor] @ []"
proof -
  let ?env = "env0\<lparr>share_rc := ENOENT\<rparr>"
  have e: "data_write_rc ?env = EOK" "mappable_page ?env = Some 4096" "share_rc ?env = ENOENT"
    by (simp_all add: env0_def)
  have t: "snd (snd (fs_register ?env reg0)) =
      [SendRegister, DataWriteStart, ConnectToMe, GetMappablePage, ShareInStart 4096, WaitFor]"
    by (simp add: fs_register_def env0_def reg0_def)
  from fs_register_awaits_and_propagates [of ?env reg0] e
  have "fst (fs_register ?env reg0) = ENOENT" by simp
  with t show ?thesis by simp
qed

text \<open>
  The handle stored on success is the first argument of the answer read as a signed
  32-bit number: an argument of \<open>2 ^ 31\<close> is stored as \<open>- (2 ^ 31)\<close>.
\<close>

lemma fs_register_fs_handle:
  "fs_handle (fst (snd (fs_register (env0\<lparr>answer_arg1 := 3\<rparr>) reg0))) = 3"
  "fs_handle (fst (snd (fs_register (env0\<lparr>answer_arg1 := 2 ^ 31\<rparr>) reg0))) = - (2 ^ 31)"
  by (simp_all add: fs_register_def env0_def reg0_def)

subsection \<open>Releasing node references\<close>

lemma refs_append [simp]: "refs f (xs @ ys) = refs f xs + refs f ys"
  by (simp add: refs_def map_filter_def)

lemma refs_Nil [simp]: "refs f [] = {#}"
  by (simp add: refs_def)

lemma refs_Cons [simp]:
  "refs f (e # tr) = (case f e of None \<Rightarrow> {#} | Some n \<Rightarrow> {#n#}) + refs f tr"
  by (simp add: refs_def split: option.splits)

lemma held_upd [simp]:
  "held (emit e st) = held st" "held (ipc_answer_0 rc st) = held st"
  "held (ipc_answer_5 rc a1 a2 a3 a4 a5 st) = held st"
  "held (do_node_put ops n st) = held st" "held (put_if ops n st) = held st"
  "held (st\<lparr>fs := s\<rparr>) = held st" "held (st\<lparr>nxt := p\<rparr>) = held st"
  "held (st\<lparr>trace := tr\<rparr>) = held st"
  by (simp_all add: held_def)

lemma link_new_effect:
  "\<exists>s' t. link_new ops h rq component st = st\<lparr>fs := s', trace := trace st @ t\<rparr> \<and>
      refs acquired_by t = {#} \<and> refs linked_by t = refs released_by t"
proof -
  let ?dev = "req_dev rq" and ?lf = "req_lflag rq"
  obtain fn s1 where o: "(if L_CREATE \<in> ?lf then create ops ?dev ?lf (fs st)
      else node_get ops ?dev (req_index rq) (fs st)) = (fn, s1)"
    by (cases "if L_CREATE \<in> ?lf then create ops ?dev ?lf (fs st)
      else node_get ops ?dev (req_index rq) (fs st)")
  let ?e1 = "if L_CREATE \<in> ?lf then Create ?dev ?lf fn else NodeGet ?dev (req_index rq) fn"
  have e1: "acquired_by ?e1 = None" "linked_by ?e1 = None" "released_by ?e1 = None"
    by simp_all
  show ?thesis
  proof (cases fn)
    case None
    with o have "link_new ops h rq component st =
        st\<lparr>fs := s1, trace := trace st @ [?e1, Answer0 ENOSPC]\<rparr>"
      by (simp add: link_new_def emit_def ipc_answer_0_def Let_def)
    moreover have "refs acquired_by [?e1, Answer0 ENOSPC] = {#}"
      "refs linked_by [?e1, Answer0 ENOSPC] = refs released_by [?e1, Answer0 ENOSPC]"
      using e1 by simp_all
    ultimately show ?thesis by blast
  next
    case (Some n)
    obtain rc s2 where l: "link ops (cur st) fn component s1 = (rc, s2)"
      by (cases "link ops (cur st) fn component s1")
    show ?thesis
    proof (cases "rc = EOK")
      case True
      let ?t = "[?e1, Link (cur st) fn component EOK,
        Answer5 EOK h ?dev (index_get ops fn s2) (size_get ops fn s2) (lnkcnt_get ops fn s2),
        NodePut fn]"
      from o Some l True have "link_new ops h rq component st =
          st\<lparr>fs := node_put ops fn s2, trace := trace st @ ?t\<rparr>"
        by (simp add: link_new_def emit_def ipc_answer_5_def do_node_put_def Let_def)
      moreover have "refs acquired_by ?t = {#}" "refs linked_by ?t = refs released_by ?t"
        using e1 Some by simp_all
      ultimately show ?thesis by blast
    next
      case False
      let ?t = "[?e1, Link (cur st) fn component rc] @
        (if L_CREATE \<in> ?lf then [Destroy fn] else []) @ [Answer0 rc]"
      from o Some l False have "link_new ops h rq component st =
          st\<lparr>fs := (if L_CREATE \<in> ?lf then snd (destroy ops fn s2) else s2),
             trace := trace st @ ?t\<rparr>"
        by (simp add: link_new_def emit_def ipc_answer_0_def Let_def)
      moreover have "refs acquired_by ?t = {#}" "refs linked_by ?t = refs released_by ?t"
        using e1 False by simp_all
      ultimately show ?thesis by blast
    qed
  qed
qed

lemma balanced_link_new:
  assumes "balanced st"
  shows "balanced (link_new ops h rq component st)"
proof -
  from link_new_effect [of ops h rq component st] obtain s' t where
    "link_new ops h rq component st = st\<lparr>fs := s', trace := trace st @ t\<rparr>"
    "refs acquired_by t = {#}" "refs linked_by t = refs released_by t" by blast
  with assms show ?thesis by (simp add: balanced_def)
qed

lemma balanced_answer [simp]:
  "balanced (ipc_answer_0 rc st) = balanced st"
  "balanced (ipc_answer_5 rc a1 a2 a3 a4 a5 st) = balanced st"
  "balanced (st\<lparr>nxt := p\<rparr>) = balanced st"
  by (simp_all add: balanced_def)

lemma balanced_handle_miss:
  "balanced st \<Longrightarrow> balanced (handle_miss ops h rq lst component st)"
  by (simp add: handle_miss_def balanced_link_new)

lemma balanced_loop_body:
  assumes "balanced st" and "tmp st = None"
  shows "case loop_body ops lim h rq lst st of
           Continue st' \<Rightarrow> balanced st' \<and> tmp st' = None
         | GotoOut st' \<Rightarrow> balanced st'
         | Abort st' \<Rightarrow> True"
proof (cases "collect (plb_get_char ops) (NAME_MAX lim) lst (nxt st) []")
  case (Collected p component)
  obtain t s1 where m: "match ops (cur st) component (fs st) = (t, s1)"
    by (cases "match ops (cur st) component (fs st)")
  let ?st1 = "emit (Match (cur st) component t) (st\<lparr>nxt := p + 1, tmp := t, fs := s1\<rparr>)"
  show ?thesis
  proof (cases "component = []")
    case True
    with Collected show ?thesis by (simp add: loop_body_def)
  next
    case False
    show ?thesis
    proof (cases t)
      case None
      have "balanced ?st1" using assms None by (simp add: balanced_def held_def)
      from balanced_handle_miss [OF this] Collected m None False show ?thesis
        by (simp add: loop_body_def)
    next
      case (Some n)
      with assms Collected m False show ?thesis
        by (cases "par st"; cases "cur st") (simp_all add: loop_body_def balanced_def held_def)
    qed
  qed
next
  case TooLong
  with assms show ?thesis by (simp add: loop_body_def balanced_def)
qed (simp_all add: loop_body_def)

lemma balanced_lookup_loop:
  "balanced st \<Longrightarrow> tmp st = None \<Longrightarrow> lookup_loop fuel ops lim h rq lst st = Some res \<Longrightarrow>
   (case res of Continue st' \<Rightarrow> balanced st' \<and> tmp st' = None
    | GotoOut st' \<Rightarrow> balanced st' | Abort st' \<Rightarrow> True)"
proof (induction fuel arbitrary: st)
  case 0
  then show ?case by simp
next
  case (Suc fuel)
  show ?case
  proof (cases "nxt st \<le> lst \<and> has_children ops (cur st) (fs st)")
    case False
    with Suc.prems show ?thesis by auto
  next
    case True
    note b = balanced_loop_body [OF Suc.prems(1,2), of ops lim h rq lst]
    show ?thesis
    proof (cases "loop_body ops lim h rq lst st")
      case (Continue st1)
      with b True Suc.prems(3) Suc.IH [of st1] show ?thesis by simp
    next
      case (GotoOut st1)
      with b True Suc.prems(3) show ?thesis by auto
    next
      case (Abort st1)
      with b True Suc.prems(3) show ?thesis by auto
    qed
  qed
qed

lemma balanced_excessive:
  "balanced st \<Longrightarrow> excessive ops lim h rq lst st = GotoOut st' \<Longrightarrow> balanced st'"
  by (auto simp: excessive_def balanced_link_new split: if_splits collected.splits)

lemma balanced_parent:
  "balanced st \<Longrightarrow> balanced ((do_node_put ops (cur st) st)\<lparr>cur := par st, par := None\<rparr>)"
  by (cases "par st"; cases "cur st"; cases "tmp st") (simp_all add: balanced_def held_def)

lemma balanced_unlink [simp]:
  "balanced (emit (Unlink p c res) (st\<lparr>fs := s\<rparr>)) = balanced st"
  by (simp add: balanced_def)

lemma balanced_handle_hit:
  assumes "balanced st"
  shows "balanced (handle_hit ops h rq st)"
proof (cases "L_PARENT \<in> req_lflag rq")
  case True
  from balanced_parent [OF assms, of ops] True show ?thesis
    by (cases "par st") (auto simp: handle_hit_def Let_def split: prod.splits)
next
  case False
  with assms show ?thesis
    by (auto simp: handle_hit_def Let_def split: prod.splits)
qed

lemma balanced_lookup_init: "balanced (lookup_init ops rq s)" "tmp (lookup_init ops rq s) = None"
  by (auto simp: lookup_init_def balanced_def held_def Let_def split: prod.splits option.splits)

lemma refs_released_out:
  "refs released_by (trace (out ops st)) = refs released_by (trace st) + held st"
  "refs acquired_by (trace (out ops st)) = refs acquired_by (trace st)"
  "refs linked_by (trace (out ops st)) = refs linked_by (trace st)"
  by (cases "par st"; cases "cur st"; cases "tmp st"; simp add: trace_out held_def)+

lemma libfs_lookup_before_out:
  "libfs_lookup fuel ops lim h rq s =
     (case before_out fuel ops lim h rq s of
        None \<Rightarrow> None
      | Some (Abort st) \<Rightarrow> Some (finish False st)
      | Some (GotoOut st) \<Rightarrow> Some (finish True (out ops st))
      | Some (Continue st) \<Rightarrow> Some (finish True (out ops st)))"
  by (simp add: libfs_lookup_def before_out_def after_loop_def Let_def
      split: option.splits flow.splits)

lemma before_out_not_Continue: "before_out fuel ops lim h rq s \<noteq> Some (Continue st)"
  by (auto simp: before_out_def Let_def excessive_not_Continue split: option.splits flow.splits)

lemma before_out_balanced:
  assumes "before_out fuel ops lim h rq s = Some (GotoOut st)"
  shows "balanced st"
proof -
  let ?lst = "lookup_last lim rq" and ?st0 = "lookup_init ops rq s"
  from assms obtain res where l: "lookup_loop fuel ops lim h rq ?lst ?st0 = Some res"
    by (auto simp: before_out_def Let_def split: option.splits)
  note b = balanced_lookup_loop [OF balanced_lookup_init l]
  show ?thesis
  proof (cases res)
    case (Abort st')
    with assms l show ?thesis by (simp add: before_out_def)
  next
    case (GotoOut st')
    with assms l b show ?thesis by (simp add: before_out_def)
  next
    case (Continue st')
    from b Continue have bs: "balanced st'" by simp
    show ?thesis
    proof (cases "nxt st' \<le> ?lst \<and> \<not> has_children ops (cur st') (fs st')")
      case True
      with assms l Continue have "excessive ops lim h rq ?lst st' = GotoOut st"
        by (simp add: before_out_def)
      from balanced_excessive [OF bs this] show ?thesis .
    next
      case False
      with assms l Continue have "st = handle_hit ops h rq st'"
        by (auto simp: before_out_def)
      with balanced_handle_hit [OF bs] show ?thesis by simp
    qed
  qed
qed

text \<open>
  C2.  Every call that returns has reached the label \<^verbatim>\<open>out\<close>, in the state \<open>st\<close> that
  the body of the function produces.  What the function does from there on is to call
  \<^verbatim>\<open>node_put\<close> once for each of \<^verbatim>\<open>par\<close>, \<^verbatim>\<open>cur\<close> and \<^verbatim>\<open>tmp\<close> that is not
  \<^verbatim>\<open>NULL\<close>, in this order, and nothing else: these calls are the rest of the trace,
  the backend is left in the state they produce, and for a variable that is \<^verbatim>\<open>NULL\<close>
  there is no call.  At the label the references taken so far (from \<^verbatim>\<open>root_get\<close> and
  \<^verbatim>\<open>match\<close>, and to new nodes that were linked) are those already released together
  with those held in \<^verbatim>\<open>par\<close>, \<^verbatim>\<open>cur\<close> and \<^verbatim>\<open>tmp\<close>.  So over the whole call each
  reference taken is released exactly once (as multisets, the nodes released are the
  nodes acquired).
\<close>

theorem references_released_once:
  assumes "libfs_lookup fuel (ops :: 's libfs_ops) lim h rq s = Some r" and "returned r"
  shows "\<exists>st :: 's engine. before_out fuel ops lim h rq s = Some (GotoOut st) \<and>
           final_trace r =
             trace st @ map NodePut (filter (\<lambda>n. n \<noteq> None) [par st, cur st, tmp st]) \<and>
           final_fs r =
             fold (node_put ops) (filter (\<lambda>n. n \<noteq> None) [par st, cur st, tmp st]) (fs st) \<and>
           refs acquired_by (trace st) + refs linked_by (trace st) =
             refs released_by (trace st) + held st \<and>
           refs released_by (final_trace r) =
             refs acquired_by (final_trace r) + refs linked_by (final_trace r)"
proof -
  from assms obtain st where o: "before_out fuel ops lim h rq s = Some (GotoOut st)"
    and r: "r = finish True (out ops st)"
    using before_out_not_Continue [of fuel ops lim h rq s]
    by (auto simp: libfs_lookup_before_out split: option.splits flow.splits)
  from o have b: "balanced st" by (rule before_out_balanced)
  have 1: "final_trace r =
      trace st @ map NodePut (filter (\<lambda>n. n \<noteq> None) [par st, cur st, tmp st])"
    using r by (simp add: out_def Let_def)
  have 2: "final_fs r =
      fold (node_put ops) (filter (\<lambda>n. n \<noteq> None) [par st, cur st, tmp st]) (fs st)"
    using r by (simp add: out_def Let_def)
  have 3: "refs acquired_by (trace st) + refs linked_by (trace st) =
      refs released_by (trace st) + held st"
    using b by (simp add: balanced_def)
  have 4: "refs released_by (final_trace r) =
      refs acquired_by (final_trace r) + refs linked_by (final_trace r)"
    using r b by (simp add: refs_released_out balanced_def)
  show ?thesis
    by (rule exI [of _ st]) (intro conjI o 1 2 3 4)
qed

theorem references_released_once_witness:
  "\<exists>r. libfs_lookup 2 (ram_ops ''/a/x0000'') lim0 7 (mk_request 0 3 {L_CREATE} 0) ram0 = Some r \<and>
     returned r \<and>
     (\<exists>st. before_out 2 (ram_ops ''/a/x0000'') lim0 7 (mk_request 0 3 {L_CREATE} 0) ram0 =
         Some (GotoOut st) \<and>
       par st = Some 0 \<and> cur st = Some 1 \<and> tmp st = None \<and>
       trace st =
         [RootGet 0 (Some 0), Match (Some 0) ''a'' (Some 1), Match (Some 1) ''x'' None,
          Create 0 {L_CREATE} (Some 3), Link (Some 1) (Some 3) ''x'' EOK,
          Answer5 EOK 7 0 3 0 1, NodePut (Some 3)] \<and>
       released (fs st) = [Some 3] \<and>
       final_trace r = trace st @ [NodePut (Some 0), NodePut (Some 1)] \<and>
       released (final_fs r) = [Some 3, Some 0, Some 1] \<and>
       refs acquired_by (trace st) + refs linked_by (trace st) =
         refs released_by (trace st) + held st) \<and>
     refs acquired_by (final_trace r) = {#0, 1#} \<and> refs linked_by (final_trace r) = {#3#} \<and>
     refs released_by (final_trace r) = {#3, 0, 1#} \<and>
     refs released_by (final_trace r) =
       refs acquired_by (final_trace r) + refs linked_by (final_trace r)"
proof -
  let ?ops = "ram_ops ''/a/x0000''" and ?rq = "mk_request 0 3 {L_CREATE} 0"
  let ?s = "ram0\<lparr>dentries := (1, ''x'', 3) # dentries ram0,
                 lnkcnts := (3, 1) # lnkcnts ram0, fresh := 4\<rparr>"
  let ?st = "\<lparr>nxt = 5, par = Some 0, cur = Some 1, tmp = None,
      fs = ?s\<lparr>released := [Some 3]\<rparr>,
      trace = [RootGet 0 (Some 0), Match (Some 0) ''a'' (Some 1), Match (Some 1) ''x'' None,
        Create 0 {L_CREATE} (Some 3), Link (Some 1) (Some 3) ''x'' EOK,
        Answer5 EOK 7 0 3 0 1, NodePut (Some 3)]\<rparr>"
  let ?r = "\<lparr>returned = True,
      final_fs = ?s\<lparr>released := [Some 3, Some 0, Some 1]\<rparr>,
      final_trace = [RootGet 0 (Some 0), Match (Some 0) ''a'' (Some 1), Match (Some 1) ''x'' None,
        Create 0 {L_CREATE} (Some 3), Link (Some 1) (Some 3) ''x'' EOK,
        Answer5 EOK 7 0 3 0 1, NodePut (Some 3), NodePut (Some 0), NodePut (Some 1)]\<rparr>"
  have run: "libfs_lookup 2 ?ops lim0 7 ?rq ram0 = Some ?r"
    by code_simp
  have o: "before_out 2 ?ops lim0 7 ?rq ram0 = Some (GotoOut ?st)"
    by code_simp
  have ret: "returned ?r" by simp
  have c: "refs acquired_by (final_trace ?r) = {#0, 1#}" "refs linked_by (final_trace ?r) = {#3#}"
    "refs released_by (final_trace ?r) = {#3, 0, 1#}"
    by simp_all
  from references_released_once [OF run ret] obtain st where
    st: "before_out 2 ?ops lim0 7 ?rq ram0 = Some (GotoOut st)"
    and t: "final_trace ?r =
      trace st @ map NodePut (filter (\<lambda>n. n \<noteq> None) [par st, cur st, tmp st])"
    and f: "final_fs ?r =
      fold (node_put ?ops) (filter (\<lambda>n. n \<noteq> None) [par st, cur st, tmp st]) (fs st)"
    and b: "refs acquired_by (trace st) + refs linked_by (trace st) =
      refs released_by (trace st) + held st"
    and e: "refs released_by (final_trace ?r) =
      refs acquired_by (final_trace ?r) + refs linked_by (final_trace ?r)"
    by blast
  from st o have eq: "st = ?st" by simp
  have p: "node_put ?ops = (\<lambda>n s. s\<lparr>released := released s @ [n]\<rparr>)" by (simp add: ram_ops_def)
  have t': "final_trace ?r = trace ?st @ [NodePut (Some 0), NodePut (Some 1)]"
    using t unfolding eq by simp
  have f': "released (final_fs ?r) = [Some 3, Some 0, Some 1]"
    using f unfolding eq by (simp add: p)
  have b': "refs acquired_by (trace ?st) + refs linked_by (trace ?st) =
      refs released_by (trace ?st) + held ?st"
    using b unfolding eq .
  show ?thesis
    apply (rule exI [of _ ?r])
    apply (intro conjI run ret c e)
    apply (rule exI [of _ ?st])
    apply (intro conjI o t' f' b')
    apply simp_all
    done
qed

subsection \<open>Paths that wrap around the buffer\<close>

lemma unat_shift:
  fixes p d :: "32 word"
  shows "unat p + unat d < 2 ^ 32 \<Longrightarrow> unat (p + d) = unat p + unat d"
  using unat_add_lem [of p d] by simp

lemma shift_le:
  fixes p l d :: "32 word"
  assumes "unat p + unat d < 2 ^ 32" and "unat l + unat d < 2 ^ 32"
  shows "p + d \<le> l + d \<longleftrightarrow> p \<le> l"
  using assms by (simp add: word_le_nat_alt unat_shift)

lemma unat_succ:
  fixes p l :: "32 word"
  shows "unat p < 2 ^ 32 - 1 \<Longrightarrow> unat (p + 1) = unat p + 1"
  using unat_shift [of p 1] by simp

lemma shift_okD:
  "shift_ok g' g lst d \<Longrightarrow> q \<le> lst \<Longrightarrow> g' q = g (q + d)"
  "shift_ok g' g lst d \<Longrightarrow> unat lst + unat d + 2 < 2 ^ 32"
  by (auto simp: shift_ok_def)

lemma shift_le_ok:
  assumes "shift_ok g' g lst d" and "unat p \<le> unat lst + 2"
  shows "p + d \<le> lst + d \<longleftrightarrow> p \<le> lst"
  using shift_okD(2) [OF assms(1)] assms(2) by (intro shift_le) simp_all

lemma collect_shift:
  "shift_ok g' g lst d \<Longrightarrow> unat p \<le> unat lst + 1 \<Longrightarrow>
    collect g N (lst + d) (p + d) component = shift_collected d (collect g' N lst p component) \<and>
    (\<forall>q c. collect g' N lst p component = Collected q c \<longrightarrow> unat q \<le> unat lst + 1)"
proof (induction g' N lst p component rule: collect.induct)
  case (1 g' N lst p component)
  note ok = "1.prems"(1)
  have le: "p + d \<le> lst + d \<longleftrightarrow> p \<le> lst"
    using shift_le_ok [OF ok] "1.prems"(2) by simp
  show ?case
  proof (cases "p \<le> lst \<and> g' p \<noteq> CHR ''/''")
    case False
    have nc: "\<not> (p + d \<le> lst + d \<and> g (p + d) \<noteq> CHR ''/'')"
      using False le shift_okD(1) [OF ok, of p] by auto
    have a: "collect g N (lst + d) (p + d) component = Collected (p + d) component"
      by (subst collect.simps) (use nc in auto)
    have b: "collect g' N lst p component = Collected p component"
      by (subst collect.simps) (use False in auto)
    show ?thesis using a b "1.prems"(2) by simp
  next
    case True
    then have c: "p + d \<le> lst + d \<and> g (p + d) \<noteq> CHR ''/''"
      using le shift_okD(1) [OF ok, of p] by auto
    have gp: "g (p + d) = g' p" using True shift_okD(1) [OF ok, of p] by simp
    show ?thesis
    proof (cases "length component + 1 = N \<or> N < length component")
      case stop: True
      have a: "collect g N (lst + d) (p + d) component = collect g' N lst p component"
        by (subst collect.simps, subst (2) collect.simps) (use stop c True in auto)
      have b: "collect g' N lst p component = TooLong \<or> collect g' N lst p component = Overrun"
        by (subst collect.simps, subst (2) collect.simps) (use stop True in auto)
      show ?thesis using a b by auto
    next
      case False
      have u: "unat (p + 1) \<le> unat lst + 1"
        using True shift_okD(2) [OF ok] by (simp add: word_le_nat_alt unat_succ)
      from False have n: "length component + 1 \<noteq> N" "\<not> N < length component" by simp_all
      from "1.IH" [OF True n ok u] have
        ih: "collect g N (lst + d) (p + 1 + d) (component @ [g' p]) =
          shift_collected d (collect g' N lst (p + 1) (component @ [g' p]))"
        "\<forall>q c. collect g' N lst (p + 1) (component @ [g' p]) = Collected q c \<longrightarrow>
          unat q \<le> unat lst + 1"
        by simp_all
      have a: "collect g N (lst + d) (p + d) component =
          collect g N (lst + d) (p + 1 + d) (component @ [g' p])"
        by (subst collect.simps) (use c n gp in \<open>auto simp: ac_simps\<close>)
      have b: "collect g' N lst p component = collect g' N lst (p + 1) (component @ [g' p])"
        by (subst collect.simps) (use True n in auto)
      show ?thesis using a b ih by simp
    qed
  qed
qed

lemma collect_last_shift:
  "shift_ok g' g lst d \<Longrightarrow> unat p \<le> unat lst + 1 \<Longrightarrow>
    collect_last g N (lst + d) (p + d) component =
      shift_collected d (collect_last g' N lst p component)"
proof (induction g' N lst p component rule: collect_last.induct)
  case (1 g' N lst p component)
  note ok = "1.prems"(1)
  have le: "p + d \<le> lst + d \<longleftrightarrow> p \<le> lst"
    using shift_le_ok [OF ok] "1.prems"(2) by simp
  show ?case
  proof (cases "p \<le> lst")
    case False
    have a: "collect_last g N (lst + d) (p + d) component = Collected (p + d) component"
      by (subst collect_last.simps) (use False le in auto)
    have b: "collect_last g' N lst p component = Collected p component"
      by (subst collect_last.simps) (use False in auto)
    show ?thesis using a b by simp
  next
    case True
    then have c: "p + d \<le> lst + d" using le by simp
    have gp: "g (p + d) = g' p" using True shift_okD(1) [OF ok, of p] by simp
    show ?thesis
    proof (cases "g' p = CHR ''/'' \<or> length component + 1 = N \<or> N < length component")
      case stop: True
      have a: "collect_last g N (lst + d) (p + d) component = collect_last g' N lst p component"
        by (subst collect_last.simps, subst (2) collect_last.simps) (use stop c True gp in auto)
      have b: "collect_last g' N lst p component \<in> {Excess, TooLong, Overrun}"
        by (subst collect_last.simps) (use stop True in auto)
      show ?thesis using a b by auto
    next
      case False
      have u: "unat (p + 1) \<le> unat lst + 1"
        using True shift_okD(2) [OF ok] by (simp add: word_le_nat_alt unat_succ)
      from False have n: "g' p \<noteq> CHR ''/''" "length component + 1 \<noteq> N"
        "\<not> N < length component" by simp_all
      from "1.IH" [OF True n ok u] have
        ih: "collect_last g N (lst + d) (p + 1 + d) (component @ [g' p]) =
          shift_collected d (collect_last g' N lst (p + 1) (component @ [g' p]))"
        by simp
      have a: "collect_last g N (lst + d) (p + d) component =
          collect_last g N (lst + d) (p + 1 + d) (component @ [g' p])"
        by (subst collect_last.simps) (use c n gp in \<open>auto simp: ac_simps\<close>)
      have b: "collect_last g' N lst p component =
          collect_last g' N lst (p + 1) (component @ [g' p])"
        by (subst collect_last.simps) (use True n in auto)
      show ?thesis using a b ih by simp
    qed
  qed
qed

lemma link_new_shift:
  "link_new (ops\<lparr>plb_get_char := g\<rparr>) h rq c (st\<lparr>nxt := n\<rparr>) = (link_new ops h rq c st)\<lparr>nxt := n\<rparr>"
  by (simp add: link_new_def Let_def emit_def ipc_answer_0_def ipc_answer_5_def do_node_put_def
      case_prod_beta)

lemma handle_miss_shift:
  assumes "shift_ok g' g lst d" and "unat (nxt st) \<le> unat lst + 2"
  shows "handle_miss (ops\<lparr>plb_get_char := g\<rparr>) h rq (lst + d) c (st\<lparr>nxt := nxt st + d\<rparr>) =
     (handle_miss ops h rq lst c st)\<lparr>nxt := nxt st + d\<rparr>"
proof -
  have le: "nxt st + d \<le> lst + d \<longleftrightarrow> nxt st \<le> lst"
    using shift_le_ok [OF assms] .
  show ?thesis
    using link_new_shift [where ops = ops and g = g and h = h and rq = rq and c = c and st = st
        and n = "nxt st + d"]
    by (simp add: handle_miss_def le emit_def ipc_answer_0_def ipc_answer_5_def)
qed

lemma handle_hit_shift:
  "handle_hit (ops\<lparr>plb_get_char := g\<rparr>) h rq (st\<lparr>nxt := n\<rparr>) = (handle_hit ops h rq st)\<lparr>nxt := n\<rparr>"
proof (cases "L_PARENT \<in> req_lflag rq")
  case p: True
  show ?thesis
  proof (cases "par st")
    case None
    with p show ?thesis
      by (simp add: handle_hit_def Let_def emit_def ipc_answer_0_def do_node_put_def)
  next
    case n: (Some y)
    show ?thesis
    proof (cases "L_UNLINK \<in> req_lflag rq")
      case True
      with p n show ?thesis
        by (simp add: handle_hit_def Let_def emit_def ipc_answer_5_def do_node_put_def
            case_prod_beta)
    next
      case False
      with p n show ?thesis
        by (simp add: handle_hit_def Let_def emit_def ipc_answer_0_def ipc_answer_5_def
            do_node_put_def)
    qed
  qed
next
  case p: False
  show ?thesis
  proof (cases "L_UNLINK \<in> req_lflag rq")
    case True
    with p show ?thesis
      by (simp add: handle_hit_def Let_def emit_def ipc_answer_5_def case_prod_beta)
  next
    case False
    with p show ?thesis
      by (simp add: handle_hit_def Let_def emit_def ipc_answer_0_def ipc_answer_5_def)
  qed
qed

lemma out_shift:
  "out (ops\<lparr>plb_get_char := g\<rparr>) (st\<lparr>nxt := n\<rparr>) = (out ops st)\<lparr>nxt := n\<rparr>"
  by (simp add: out_def Let_def put_if_def do_node_put_def emit_def)

lemma finish_shift [simp]: "finish r (st\<lparr>nxt := n\<rparr>) = finish r st"
  by (simp add: finish_def)

lemma loop_body_shift:
  assumes ok: "shift_ok (plb_get_char ops) g lst d" and b: "unat (nxt st) \<le> unat lst + 1"
  shows "loop_body (ops\<lparr>plb_get_char := g\<rparr>) lim h rq (lst + d) (st\<lparr>nxt := nxt st + d\<rparr>) =
      shift_flow d (loop_body ops lim h rq lst st) \<and>
    (\<forall>st'. loop_body ops lim h rq lst st = Continue st' \<longrightarrow> unat (nxt st') \<le> unat lst + 2)"
proof -
  let ?ops = "ops\<lparr>plb_get_char := g\<rparr>" and ?st = "st\<lparr>nxt := nxt st + d\<rparr>"
  let ?c = "collect (plb_get_char ops) (NAME_MAX lim) lst (nxt st) []"
  from collect_shift [OF ok b, of "NAME_MAX lim" "[]"] have
    cs: "collect g (NAME_MAX lim) (lst + d) (nxt st + d) [] = shift_collected d ?c"
    and cb: "\<And>q c. ?c = Collected q c \<Longrightarrow> unat q \<le> unat lst + 1"
    by simp_all
  show ?thesis
  proof (cases ?c)
    case (Collected q c)
    note qb = cb [OF Collected]
    have q1: "unat (q + 1) \<le> unat lst + 2"
      using qb shift_okD(2) [OF ok] by (simp add: unat_succ)
    show ?thesis
    proof (cases "c = []")
      case True
      with Collected cs show ?thesis by (simp add: loop_body_def)
    next
      case False
      obtain t s1 where m: "match ops (cur st) c (fs st) = (t, s1)"
        by (cases "match ops (cur st) c (fs st)")
      let ?st1 = "emit (Match (cur st) c t) (st\<lparr>nxt := q + 1, tmp := t, fs := s1\<rparr>)"
      have e: "emit (Match (cur st) c t) (?st\<lparr>nxt := q + d + 1, tmp := t, fs := s1\<rparr>) =
          ?st1\<lparr>nxt := nxt ?st1 + d\<rparr>"
        by (rule engine.equality) (simp_all add: ac_simps)
      have L0: "loop_body ?ops lim h rq (lst + d) ?st =
          (if t = None
           then GotoOut (handle_miss ?ops h rq (lst + d) c
             (emit (Match (cur st) c t) (?st\<lparr>nxt := q + d + 1, tmp := t, fs := s1\<rparr>)))
           else Continue ((put_if ?ops (par st)
             (emit (Match (cur st) c t) (?st\<lparr>nxt := q + d + 1, tmp := t, fs := s1\<rparr>)))
               \<lparr>par := cur st, cur := t, tmp := None\<rparr>))"
        using Collected cs False m by (simp add: loop_body_def Let_def)
      show ?thesis
      proof (cases t)
        case None
        let ?st1s = "?st1\<lparr>nxt := nxt ?st1 + d\<rparr>"
        have L: "loop_body ?ops lim h rq (lst + d) ?st =
            GotoOut (handle_miss ?ops h rq (lst + d) c ?st1s)"
          unfolding L0 e using None by simp
        have R: "loop_body ops lim h rq lst st = GotoOut (handle_miss ops h rq lst c ?st1)"
          using Collected False m None by (simp add: loop_body_def Let_def)
        have "unat (nxt ?st1) \<le> unat lst + 2" using q1 by simp
        from handle_miss_shift [OF ok this, of ops h rq c]
        have H: "handle_miss ?ops h rq (lst + d) c ?st1s =
            (handle_miss ops h rq lst c ?st1)\<lparr>nxt := nxt ?st1 + d\<rparr>" .
        have N: "nxt (handle_miss ops h rq lst c ?st1) = nxt ?st1"
          by (simp add: handle_miss_def link_new_def Let_def case_prod_beta)
        show ?thesis
          unfolding L R H by (simp only: shift_flow.simps N flow.simps simp_thms)
      next
        case (Some n)
        let ?st1s = "?st1\<lparr>nxt := nxt ?st1 + d\<rparr>"
        let ?k = "\<lambda>x :: 'a engine. x\<lparr>par := cur st, cur := t, tmp := None\<rparr>"
        have L: "loop_body ?ops lim h rq (lst + d) ?st = Continue (?k (put_if ?ops (par st) ?st1s))"
          unfolding L0 e using Some by simp
        have R: "loop_body ops lim h rq lst st = Continue (?k (put_if ops (par st) ?st1))"
          using Collected False m Some by (simp add: loop_body_def Let_def)
        have P: "?k (put_if ?ops (par st) ?st1s) =
            (?k (put_if ops (par st) ?st1))\<lparr>nxt := nxt (?k (put_if ops (par st) ?st1)) + d\<rparr>"
          by (rule engine.equality) simp_all
        have N: "nxt (?k (put_if ops (par st) ?st1)) = q + 1" by simp
        show ?thesis
          unfolding L R P using q1 by (simp only: shift_flow.simps N flow.simps simp_thms)
      qed
    qed
  qed (use cs in \<open>simp_all add: loop_body_def ipc_answer_0_def emit_def\<close>)
qed

lemma lookup_loop_shift:
  "shift_ok (plb_get_char ops) g lst d \<Longrightarrow> unat (nxt st) \<le> unat lst + 2 \<Longrightarrow>
   lookup_loop fuel (ops\<lparr>plb_get_char := g\<rparr>) lim h rq (lst + d) (st\<lparr>nxt := nxt st + d\<rparr>) =
     map_option (shift_flow d) (lookup_loop fuel ops lim h rq lst st) \<and>
   (\<forall>st'. lookup_loop fuel ops lim h rq lst st = Some (Continue st') \<longrightarrow>
      unat (nxt st') \<le> unat lst + 2)"
proof (induction fuel arbitrary: st)
  case 0
  then show ?case by simp
next
  case (Suc fuel)
  note ok = Suc.prems(1)
  have le: "nxt st + d \<le> lst + d \<longleftrightarrow> nxt st \<le> lst"
    using shift_le_ok [OF ok Suc.prems(2)] .
  show ?case
  proof (cases "nxt st \<le> lst \<and> has_children ops (cur st) (fs st)")
    case False
    with le Suc.prems(2) show ?thesis by auto
  next
    case True
    then have b: "unat (nxt st) \<le> unat lst + 1" by (simp add: word_le_nat_alt)
    note lb = loop_body_shift [OF ok b, of lim h rq]
    show ?thesis
    proof (cases "loop_body ops lim h rq lst st")
      case (Continue st1)
      with lb have n1: "unat (nxt st1) \<le> unat lst + 2" by simp
      from Suc.IH [OF ok n1] lb Continue True le show ?thesis by simp
    next
      case (GotoOut st1)
      with lb True le show ?thesis by simp
    next
      case (Abort st1)
      with lb True le show ?thesis by simp
    qed
  qed
qed

lemma excessive_shift:
  assumes ok: "shift_ok (plb_get_char ops) g lst d" and b: "unat (nxt st) \<le> unat lst + 1"
  shows "excessive (ops\<lparr>plb_get_char := g\<rparr>) lim h rq (lst + d) (st\<lparr>nxt := nxt st + d\<rparr>) =
      shift_flow d (excessive ops lim h rq lst st)"
proof -
  let ?ops = "ops\<lparr>plb_get_char := g\<rparr>" and ?st = "st\<lparr>nxt := nxt st + d\<rparr>"
  let ?c = "collect_last (plb_get_char ops) (NAME_MAX lim) lst (nxt st) []"
  from collect_last_shift [OF ok b, of "NAME_MAX lim" "[]"] have
    cs: "collect_last g (NAME_MAX lim) (lst + d) (nxt st + d) [] = shift_collected d ?c" .
  show ?thesis
  proof (cases "req_lflag rq \<inter> {L_CREATE, L_LINK} \<noteq> {} \<and> is_directory ops (cur st) (fs st)")
    case False
    then show ?thesis by (auto simp: excessive_def ipc_answer_0_def emit_def)
  next
    case True
    show ?thesis
    proof (cases ?c)
      case (Collected q c)
      have n: "nxt (link_new ops h rq c (st\<lparr>nxt := q\<rparr>)) = q"
        by (simp add: link_new_def Let_def case_prod_beta)
      have "link_new ?ops h rq c (?st\<lparr>nxt := q + d\<rparr>) =
          (link_new ops h rq c (st\<lparr>nxt := q\<rparr>))\<lparr>nxt := q + d\<rparr>"
        using link_new_shift [where ops = ops and g = g and h = h and rq = rq and c = c
            and st = st and n = "q + d"]
          link_new_shift [where ops = ops and g = "plb_get_char ops" and h = h and rq = rq
            and c = c and st = st and n = q]
        by simp
      with True Collected cs n show ?thesis by (simp add: excessive_def)
    qed (use True cs in \<open>simp_all add: excessive_def ipc_answer_0_def emit_def\<close>)
  qed
qed

lemma after_loop_shift:
  assumes ok: "shift_ok (plb_get_char ops) g lst d" and b: "unat (nxt st) \<le> unat lst + 2"
  shows "after_loop (ops\<lparr>plb_get_char := g\<rparr>) lim h rq (lst + d) (st\<lparr>nxt := nxt st + d\<rparr>) =
      after_loop ops lim h rq lst st"
proof -
  let ?ops = "ops\<lparr>plb_get_char := g\<rparr>" and ?st = "st\<lparr>nxt := nxt st + d\<rparr>"
  have le: "nxt st + d \<le> lst + d \<longleftrightarrow> nxt st \<le> lst"
    using shift_le_ok [OF ok b] .
  show ?thesis
  proof (cases "nxt st \<le> lst \<and> \<not> has_children ops (cur st) (fs st)")
    case True
    then have "unat (nxt st) \<le> unat lst + 1" by (simp add: word_le_nat_alt)
    from excessive_shift [OF ok this, of lim h rq] True le show ?thesis
      by (cases "excessive ops lim h rq lst st") (simp_all add: after_loop_def out_shift)
  next
    case False
    with le show ?thesis
      by (auto simp: after_loop_def handle_hit_shift out_shift)
  qed
qed

lemma request_cong:
  assumes "req_dev rq = req_dev rq'" and "req_lflag rq = req_lflag rq'"
    and "req_index rq = req_index rq'"
  shows "link_new ops h rq = link_new ops h rq'"
    and "handle_miss ops h rq = handle_miss ops h rq'"
    and "loop_body ops lim h rq = loop_body ops lim h rq'"
    and "excessive ops lim h rq = excessive ops lim h rq'"
    and "handle_hit ops h rq = handle_hit ops h rq'"
proof -
  show 1: "link_new ops h rq = link_new ops h rq'"
    unfolding link_new_def Let_def assms ..
  show 2: "handle_miss ops h rq = handle_miss ops h rq'"
    unfolding handle_miss_def assms 1 ..
  show "loop_body ops lim h rq = loop_body ops lim h rq'"
    unfolding loop_body_def 2 ..
  show "excessive ops lim h rq = excessive ops lim h rq'"
    unfolding excessive_def assms 1 ..
  show "handle_hit ops h rq = handle_hit ops h rq'"
    unfolding handle_hit_def Let_def assms ..
qed

lemma lookup_loop_cong:
  assumes "req_dev rq = req_dev rq'" and "req_lflag rq = req_lflag rq'"
    and "req_index rq = req_index rq'"
  shows "lookup_loop fuel ops lim h rq lst st = lookup_loop fuel ops lim h rq' lst st"
  by (induction fuel arbitrary: st)
     (auto simp: request_cong(3) [OF assms] split: flow.splits)

lemma after_loop_cong:
  assumes "req_dev rq = req_dev rq'" and "req_lflag rq = req_lflag rq'"
    and "req_index rq = req_index rq'"
  shows "after_loop ops lim h rq lst st = after_loop ops lim h rq' lst st"
  by (simp add: after_loop_def request_cong(4,5) [OF assms])

lemma plb_read_rotate:
  fixes q d :: "32 word"
  assumes "unat q < length plb" and "unat q + unat d < 2 ^ 32"
  shows "plb_read (rotate (unat d) plb) q = plb_read plb (q + d)"
proof -
  have "rotate (unat d) plb ! unat q = plb ! ((unat d + unat q) mod length plb)"
    using assms(1) by (rule nth_rotate)
  then show ?thesis
    using assms by (simp add: plb_read_def unat_shift add.commute)
qed

text \<open>
  C7.  Let the backend read the path lookup buffer \<open>plb\<close>, of \<^verbatim>\<open>PLB_SIZE\<close> bytes,
  modulo its capacity, and let a request have \<^verbatim>\<open>last < next\<close>, with \<^verbatim>\<open>next\<close> inside
  the buffer.  Then the function extends the range by the capacity
  (\<^verbatim>\<open>last += PLB_SIZE\<close>), and the whole outcome of the call (answers, backend calls and
  final backend state) is that of the request \<open>rq'\<close> for the same path laid out from
  offset 0 of the buffer, which does not wrap (\<open>next \<le> last < PLB_SIZE\<close>, no extension
  of the range): the buffer rotated left by \<^verbatim>\<open>next\<close>, with \<^verbatim>\<open>next = 0\<close> and
  \<^verbatim>\<open>last\<close> moved accordingly.  (\<^verbatim>\<open>PLB_SIZE\<close> below \<open>2^31\<close> keeps \<^verbatim>\<open>last + PLB_SIZE\<close>
  from overflowing.)
\<close>

theorem wraparound_transparent:
  assumes g: "plb_get_char ops = plb_read plb"
    and w: "req_last rq < req_next rq"
    and n: "req_next rq < PLB_SIZE lim"
    and c: "unat (PLB_SIZE lim) < 2 ^ 31"
    and l: "length plb = unat (PLB_SIZE lim)"
    and r: "rq' = rq\<lparr>req_next := 0, req_last := req_last rq + PLB_SIZE lim - req_next rq\<rparr>"
  shows "lookup_last lim rq = req_last rq + PLB_SIZE lim \<and>
    req_next rq' \<le> req_last rq' \<and> req_last rq' < PLB_SIZE lim \<and>
    lookup_last lim rq' = req_last rq' \<and>
    libfs_lookup fuel ops lim h rq s =
    libfs_lookup fuel (ops\<lparr>plb_get_char := plb_read (rotate (unat (req_next rq)) plb)\<rparr>) lim h rq' s"
proof -
  let ?d = "req_next rq" and ?C = "PLB_SIZE lim"
  let ?lst = "req_last rq + ?C - ?d"
  let ?g = "plb_read plb" and ?g' = "plb_read (rotate (unat ?d) plb)"
  let ?opsw = "ops\<lparr>plb_get_char := ?g\<rparr>" and ?opsu = "ops\<lparr>plb_get_char := ?g'\<rparr>"
  have u: "unat (req_last rq) < unat ?d" "unat ?d < unat ?C"
    using w n by (simp_all add: word_less_nat_alt)
  have ac: "unat (req_last rq + ?C) = unat (req_last rq) + unat ?C"
    using u c by (intro unat_shift) simp
  have "?d \<le> req_last rq + ?C"
    using u ac by (simp add: word_le_nat_alt)
  then have ul: "unat ?lst = unat (req_last rq) + unat ?C - unat ?d"
    using ac by (simp add: unat_sub)
  have lC: "unat ?lst < unat ?C" using ul u by simp
  have ok: "shift_ok ?g' ?g ?lst ?d"
    unfolding shift_ok_def
  proof (intro conjI allI impI)
    fix q :: "32 word"
    assume "q \<le> ?lst"
    then have "unat q < length plb" using lC l by (simp add: word_le_nat_alt)
    moreover have "unat q + unat ?d < 2 ^ 32" using calculation l u c by simp
    ultimately show "?g' q = ?g (q + ?d)" by (rule plb_read_rotate)
  next
    show "unat ?lst + unat ?d + 2 < 2 ^ 32" using ul u c by simp
  qed
  have ll: "lookup_last lim rq = ?lst + ?d" using w by (simp add: lookup_last_def)
  have ll': "lookup_last lim rq' = ?lst" using r by (simp add: lookup_last_def)
  have g0: "?g' 0 = ?g ?d" using shift_okD(1) [OF ok, of 0] by simp
  let ?st0 = "lookup_init ?opsu rq' s"
  have init: "lookup_init ?opsw rq s = ?st0\<lparr>nxt := nxt ?st0 + ?d\<rparr>"
    using g0 r by (simp add: lookup_init_def Let_def case_prod_beta)
  have n0: "unat (nxt ?st0) \<le> unat ?lst + 2"
    using r by (simp add: lookup_init_def Let_def case_prod_beta)
  have cg: "req_dev rq = req_dev rq'" "req_lflag rq = req_lflag rq'" "req_index rq = req_index rq'"
    using r by simp_all
  have pg: "plb_get_char ?opsu = ?g'" by simp
  note ls = lookup_loop_shift [of ?opsu ?g ?lst ?d ?st0 fuel lim h rq', unfolded pg, OF ok n0]
  have loop: "lookup_loop fuel ?opsw lim h rq (?lst + ?d) (lookup_init ?opsw rq s) =
      map_option (shift_flow ?d) (lookup_loop fuel ?opsu lim h rq' ?lst ?st0)"
    unfolding init lookup_loop_cong [OF cg] using ls by simp
  have eq: "libfs_lookup fuel ?opsw lim h rq s = libfs_lookup fuel ?opsu lim h rq' s"
  proof (cases "lookup_loop fuel ?opsu lim h rq' ?lst ?st0")
    case None
    with loop show ?thesis by (simp add: libfs_lookup_def ll ll')
  next
    case (Some res)
    show ?thesis
    proof (cases res)
      case (Continue st)
      with ls Some have "unat (nxt st) \<le> unat ?lst + 2" by simp
      from after_loop_shift [of ?opsu ?g ?lst ?d st lim h rq', unfolded pg, OF ok this]
      have "after_loop ?opsw lim h rq (?lst + ?d) (st\<lparr>nxt := nxt st + ?d\<rparr>) =
          after_loop ?opsu lim h rq' ?lst st"
        by (simp add: after_loop_cong [OF cg])
      with loop Some Continue show ?thesis by (simp add: libfs_lookup_def ll ll')
    next
      case (GotoOut st)
      with loop Some out_shift [where ops = ?opsu and g = ?g and st = st] show ?thesis
        by (simp add: libfs_lookup_def ll ll')
    next
      case (Abort st)
      with loop Some show ?thesis by (simp add: libfs_lookup_def ll ll')
    qed
  qed
  have wf: "req_next rq' \<le> req_last rq'" "req_last rq' < PLB_SIZE lim"
    "req_last rq' = ?lst"
    using r lC by (simp_all add: word_less_nat_alt)
  have "lookup_last lim rq = req_last rq + PLB_SIZE lim" using ll by simp
  moreover have "lookup_last lim rq' = req_last rq'" using ll' wf(3) by simp
  moreover have "?opsw = ops" using g [symmetric] by simp
  ultimately show ?thesis using wf(1,2) eq [unfolded \<open>?opsw = ops\<close>] by (intro conjI)
qed

theorem wraparound_transparent_witness:
  "lookup_last lim0 (mk_request 5 0 {} 0) = 0 + PLB_SIZE lim0 \<and>
   libfs_lookup 3 (ram_ops ''b0000/a/'') lim0 7 (mk_request 5 0 {} 0) ram0 =
   libfs_lookup 3 (ram_ops ''/a/b0000'') lim0 7 (mk_request 0 3 {} 0) ram0 \<and>
   map_option (replies \<circ> final_trace)
     (libfs_lookup 3 (ram_ops ''b0000/a/'') lim0 7 (mk_request 5 0 {} 0) ram0) =
   Some [Answer5 EOK 7 0 2 0 1]"
proof -
  let ?plb = "''b0000/a/''" and ?rq = "mk_request 5 0 {} 0"
  have g: "plb_get_char (ram_ops ?plb) = plb_read ?plb" by (simp add: ram_ops_def)
  have w: "req_last ?rq < req_next ?rq" by (simp add: mk_request_def)
  have n: "req_next ?rq < PLB_SIZE lim0" by (simp add: mk_request_def lim0_def)
  have c: "unat (PLB_SIZE lim0) < 2 ^ 31" by (simp add: lim0_def)
  have l: "length ?plb = unat (PLB_SIZE lim0)" by (simp add: lim0_def)
  have r: "mk_request 0 3 {} 0 =
      ?rq\<lparr>req_next := 0, req_last := req_last ?rq + PLB_SIZE lim0 - req_next ?rq\<rparr>"
    by (simp add: mk_request_def lim0_def)
  have d: "rotate 5 ?plb = ''/a/b0000''" by code_simp
  have o: "(ram_ops ?plb)\<lparr>plb_get_char := plb_read (rotate (unat (req_next ?rq)) ?plb)\<rparr> =
      ram_ops ''/a/b0000''"
    unfolding ram_ops_def mk_request_def by (simp add: d)
  have v: "map_option (replies \<circ> final_trace)
      (libfs_lookup 3 (ram_ops ''/a/b0000'') lim0 7 (mk_request 0 3 {} 0) ram0) =
      Some [Answer5 EOK 7 0 2 0 1]"
    by code_simp
  have q: "req_last ?rq = 0" by (simp add: mk_request_def)
  have e: "lookup_last lim0 ?rq = 0 + PLB_SIZE lim0 \<and>
      libfs_lookup 3 (ram_ops ?plb) lim0 7 ?rq ram0 =
      libfs_lookup 3 (ram_ops ''/a/b0000'') lim0 7 (mk_request 0 3 {} 0) ram0"
    using wraparound_transparent [OF g w n c l r, of 3 7 ram0] unfolding o q by blast
  show ?thesis using e v by simp
qed

subsection \<open>Termination\<close>

text \<open>
  A call returns (or stops at an assertion) when the extended range ends at least two
  below the largest 32-bit number, so that \<^verbatim>\<open>next\<close> cannot wrap around, and the fuel
  exceeds the range: every iteration that descends moves \<^verbatim>\<open>next\<close> forward.
\<close>

lemma collect_bounds:
  "unat lst + 2 < 2 ^ 32 \<Longrightarrow> collect g N lst p component = Collected q c \<Longrightarrow>
   unat p \<le> unat q \<and> (unat p \<le> unat lst + 1 \<longrightarrow> unat q \<le> unat lst + 1)"
proof (induction g N lst p component rule: collect.induct)
  case (1 g N lst p component)
  show ?case
  proof (cases "p \<le> lst \<and> g p \<noteq> CHR ''/''")
    case False
    with "1.prems"(2) have "q = p" by (subst (asm) collect.simps) auto
    then show ?thesis by simp
  next
    case True
    with "1.prems"(2) have n: "length component + 1 \<noteq> N" "\<not> N < length component"
      and r: "collect g N lst (p + 1) (component @ [g p]) = Collected q c"
      by (subst (asm) collect.simps; auto split: if_splits)+
    have u: "unat (p + 1) = unat p + 1"
      using True "1.prems"(1) by (intro unat_succ) (simp add: word_le_nat_alt)
    from "1.IH" [OF True n "1.prems"(1) r] u True show ?thesis
      by (simp add: word_le_nat_alt)
  qed
qed

lemma loop_body_progress:
  assumes "unat lst + 2 < 2 ^ 32" and "nxt st \<le> lst"
    and "loop_body ops lim h rq lst st = Continue st'"
  shows "unat (nxt st) < unat (nxt st') \<and> unat (nxt st') \<le> unat lst + 2"
proof -
  from assms(3) obtain q c where
    c: "collect (plb_get_char ops) (NAME_MAX lim) lst (nxt st) [] = Collected q c"
    and n: "nxt st' = q + 1"
    by (auto simp: loop_body_def Let_def split: collected.splits if_splits prod.splits)
  from collect_bounds [OF assms(1) c] assms(2)
  have b: "unat (nxt st) \<le> unat q" "unat q \<le> unat lst + 1"
    by (simp_all add: word_le_nat_alt)
  have "unat (q + 1) = unat q + 1" using b assms(1) by (intro unat_succ) simp
  with n b show ?thesis by simp
qed

lemma lookup_loop_returns:
  "unat lst + 2 < 2 ^ 32 \<Longrightarrow> unat (nxt st) \<le> unat lst + 2 \<Longrightarrow>
   unat lst + 3 - unat (nxt st) \<le> fuel \<Longrightarrow>
   \<exists>res. lookup_loop fuel ops lim h rq lst st = Some res"
proof (induction fuel arbitrary: st)
  case 0
  then show ?case by simp
next
  case (Suc fuel)
  show ?case
  proof (cases "nxt st \<le> lst \<and> has_children ops (cur st) (fs st)")
    case False
    then show ?thesis by auto
  next
    case True
    show ?thesis
    proof (cases "loop_body ops lim h rq lst st")
      case (Continue st1)
      from loop_body_progress [OF Suc.prems(1) _ Continue] True
      have p: "unat (nxt st) < unat (nxt st1)" "unat (nxt st1) \<le> unat lst + 2" by simp_all
      then have "unat lst + 3 - unat (nxt st1) \<le> fuel" using Suc.prems(3) by simp
      from Suc.IH [OF Suc.prems(1) p(2) this] Continue True show ?thesis by simp
    qed (use True in simp_all)
  qed
qed

lemma libfs_lookup_returns:
  assumes "unat (lookup_last lim rq) + 2 < 2 ^ 32"
    and "unat (req_next rq) \<le> unat (lookup_last lim rq) + 1"
    and "unat (lookup_last lim rq) + 3 \<le> fuel"
  shows "\<exists>r. libfs_lookup fuel ops lim h rq s = Some r"
proof -
  let ?st0 = "lookup_init ops rq s"
  have "unat (req_next rq + 1) = unat (req_next rq) + 1"
    using assms(1,2) by (intro unat_succ) simp
  then have "unat (nxt ?st0) \<le> unat (lookup_last lim rq) + 2"
    using assms(2) by (simp add: lookup_init_def Let_def case_prod_beta)
  moreover have "unat (lookup_last lim rq) + 3 - unat (nxt ?st0) \<le> fuel"
    using assms(3) by simp
  ultimately obtain res where
    "lookup_loop fuel ops lim h rq (lookup_last lim rq) ?st0 = Some res"
    using lookup_loop_returns [OF assms(1)] by blast
  then show ?thesis
    by (cases res) (simp_all add: libfs_lookup_def)
qed

subsection \<open>Long and short components\<close>

lemma lookup_loop_through:
  "descend n ops lim h rq lst st0 = Some st \<Longrightarrow>
   lookup_loop fuel ops lim h rq lst st0 = Some res \<Longrightarrow>
   \<exists>k. fuel = n + k \<and> lookup_loop k ops lim h rq lst st = Some res"
proof (induction n arbitrary: st0 fuel)
  case 0
  then show ?case by simp
next
  case (Suc n)
  from Suc.prems(1) obtain st1 where c: "nxt st0 \<le> lst \<and> has_children ops (cur st0) (fs st0)"
    and b: "loop_body ops lim h rq lst st0 = Continue st1"
    and d: "descend n ops lim h rq lst st1 = Some st"
    by (auto split: if_splits flow.splits)
  from Suc.prems(2) obtain f where f: "fuel = Suc f" by (cases fuel) simp_all
  with Suc.prems(2) c b have "lookup_loop f ops lim h rq lst st1 = Some res" by simp
  from Suc.IH [OF d this] f show ?case by auto
qed

lemma lookup_loop_extends:
  assumes "lookup_loop k ops lim h rq lst st = Some res"
  shows "\<exists>w. trace (case res of Continue x \<Rightarrow> x | GotoOut x \<Rightarrow> x | Abort x \<Rightarrow> x) = trace st @ w"
proof (cases res)
  case (Continue x)
  with lookup_loop_Continue_walk [of k ops lim h rq lst st x] assms show ?thesis by auto
next
  case (GotoOut x)
  with lookup_loop_GotoOut_ending [of k ops lim h rq lst st x] assms show ?thesis by auto
next
  case (Abort x)
  with lookup_loop_Abort_walk [of k ops lim h rq lst st x] assms show ?thesis by auto
qed

lemma libfs_lookup_extends:
  assumes "lookup_loop fuel ops lim h rq (lookup_last lim rq) (lookup_init ops rq s) = Some res"
    and "libfs_lookup fuel ops lim h rq s = Some r"
  shows "\<exists>w. final_trace r =
           trace (case res of Continue x \<Rightarrow> x | GotoOut x \<Rightarrow> x | Abort x \<Rightarrow> x) @ w"
proof (cases res)
  case (Abort x)
  with assms have "r = finish False x" by (simp add: libfs_lookup_def)
  with Abort show ?thesis by simp
next
  case (GotoOut x)
  with assms have "r = finish True (out ops x)" by (simp add: libfs_lookup_def)
  with GotoOut walk_out [of ops x] show ?thesis by auto
next
  case (Continue x)
  let ?lst = "lookup_last lim rq"
  from assms Continue have a: "r = after_loop ops lim h rq ?lst x" by (simp add: libfs_lookup_def)
  show ?thesis
  proof (cases "nxt x \<le> ?lst \<and> \<not> has_children ops (cur x) (fs x)")
    case True
    show ?thesis
    proof (cases "excessive ops lim h rq ?lst x")
      case (Continue y)
      with excessive_not_Continue show ?thesis by blast
    next
      case (GotoOut y)
      with a True have "r = finish True (out ops y)" by (simp add: after_loop_def)
      with excessive_ending [OF GotoOut] walk_out [of ops y] \<open>res = Continue x\<close>
      show ?thesis by auto
    next
      case (Abort y)
      with a True have "r = finish False y" by (simp add: after_loop_def)
      with excessive_Abort_trace [OF Abort] \<open>res = Continue x\<close> show ?thesis by simp
    qed
  next
    case False
    with a have "r = finish True (out ops (handle_hit ops h rq x))"
      by (auto simp: after_loop_def)
    with handle_hit_ending [of ops h rq x] walk_out [of ops "handle_hit ops h rq x"]
      \<open>res = Continue x\<close>
    show ?thesis by auto
  qed
qed

lemma component_at_first: "0 < j \<Longrightarrow> component_at g lst p j \<Longrightarrow> p \<le> lst"
  by (cases j) (simp_all add: component_at_Suc)

lemma libfs_lookup_through_body:
  assumes "descend n ops lim h rq (lookup_last lim rq) (lookup_init ops rq s) = Some st"
    and "nxt st \<le> lookup_last lim rq" and "has_children ops (cur st) (fs st)"
    and "trace (case loop_body ops lim h rq (lookup_last lim rq) st of
                  Continue x \<Rightarrow> x | GotoOut x \<Rightarrow> x | Abort x \<Rightarrow> x) = trace st @ m @ e"
    and "libfs_lookup fuel ops lim h rq s = Some r"
  shows "\<exists>post. final_trace r = trace st @ m @ post"
proof -
  let ?lst = "lookup_last lim rq" and ?st0 = "lookup_init ops rq s"
  let ?state = "\<lambda>res. case res of Continue x \<Rightarrow> x | GotoOut x \<Rightarrow> x | Abort x \<Rightarrow> x"
  from assms(5) obtain res where l: "lookup_loop fuel ops lim h rq ?lst ?st0 = Some res"
    by (auto simp: libfs_lookup_def Let_def split: option.splits)
  from lookup_loop_through [OF assms(1) l] obtain k where
    k: "lookup_loop k ops lim h rq ?lst st = Some res" by blast
  then obtain k' where k': "k = Suc k'" by (cases k) simp_all
  note c = assms(2,3) and e = assms(4)
  have "\<exists>w. trace (?state res) = trace st @ m @ w"
  proof (cases "loop_body ops lim h rq ?lst st")
    case (Continue x)
    with k k' c have "lookup_loop k' ops lim h rq ?lst x = Some res" by simp
    from lookup_loop_extends [OF this] obtain w where "trace (?state res) = trace x @ w" by blast
    with e Continue have "trace (?state res) = trace st @ m @ (e @ w)" by simp
    then show ?thesis by blast
  next
    case (GotoOut x)
    with k k' c have "res = GotoOut x" by simp
    with e GotoOut show ?thesis by auto
  next
    case (Abort x)
    with k k' c have "res = Abort x" by simp
    with e Abort show ?thesis by auto
  qed
  then obtain w where w: "trace (?state res) = trace st @ m @ w" by blast
  from libfs_lookup_extends [OF l assms(5)] obtain w' where
    "final_trace r = trace (?state res) @ w'" by blast
  with w have "final_trace r = trace st @ m @ (w @ w')" by simp
  then show ?thesis by blast
qed

text \<open>
  C6.  \<open>component_at g lst p k\<close>: the \<open>k\<close> characters from offset \<open>p\<close> on are within the
  range and none is a separator, so the component starting at \<open>p\<close> has at least \<open>k\<close>
  characters.  Where the function starts to collect a component of at least
  \<^verbatim>\<open>NAME_MAX\<close> characters, in the loop (after any number of levels descended) or after
  it (lines 1418-1432), it answers \<^verbatim>\<open>ENAMETOOLONG\<close> and then only releases the nodes it
  holds: nothing is matched, created or linked and the backend state is the one the
  releases leave.  Where it starts to collect a component of \<open>j\<close> characters, with
  \<open>0 < j < NAME_MAX\<close>, the component is extracted and used.  In the loop: every call,
  whatever its fuel, that returns or stops has a trace that continues the walk so far
  with the call of \<^verbatim>\<open>match\<close> for exactly these \<open>j\<close> characters; and there is such a
  call (with fuel above the range, when the range does not reach the end of the 32-bit
  numbers).  After the loop: the function returns, and what it does is to create or
  resolve a node and link it under the name made of exactly these \<open>j\<close> characters.
\<close>

theorem long_component_name_too_long:
  assumes "0 < NAME_MAX lim"
  shows
    "(descend n ops lim h rq (lookup_last lim rq) (lookup_init ops rq s) = Some st \<and>
      has_children ops (cur st) (fs st) \<and>
      component_at (plb_get_char ops) (lookup_last lim rq) (nxt st) (NAME_MAX lim) \<longrightarrow>
        (\<exists>r. libfs_lookup (n + Suc k) ops lim h rq s = Some r \<and> returned r \<and>
           final_trace r = trace st @ [Answer0 ENAMETOOLONG] @
             map NodePut (filter (\<lambda>n. n \<noteq> None) [par st, cur st, tmp st]) \<and>
           final_fs r = fs (out ops st))) \<and>
     (lookup_loop fuel ops lim h rq (lookup_last lim rq) (lookup_init ops rq s) = Some (Continue st) \<and>
      \<not> has_children ops (cur st) (fs st) \<and>
      req_lflag rq \<inter> {L_CREATE, L_LINK} \<noteq> {} \<and> is_directory ops (cur st) (fs st) \<and>
      component_at (plb_get_char ops) (lookup_last lim rq) (nxt st) (NAME_MAX lim) \<longrightarrow>
        (\<exists>r. libfs_lookup fuel ops lim h rq s = Some r \<and> returned r \<and>
           final_trace r = trace st @ [Answer0 ENAMETOOLONG] @
             map NodePut (filter (\<lambda>n. n \<noteq> None) [par st, cur st, tmp st]) \<and>
           final_fs r = fs (out ops st))) \<and>
     (descend n ops lim h rq (lookup_last lim rq) (lookup_init ops rq s) = Some st \<and>
      has_children ops (cur st) (fs st) \<and> 0 < j \<and> j < NAME_MAX lim \<and>
      component_at (plb_get_char ops) (lookup_last lim rq) (nxt st) j \<and>
      \<not> (nxt st + of_nat j \<le> lookup_last lim rq \<and>
         plb_get_char ops (nxt st + of_nat j) \<noteq> CHR ''/'') \<longrightarrow>
        (\<forall>fuel r. libfs_lookup fuel ops lim h rq s = Some r \<longrightarrow>
           (\<exists>post. final_trace r = trace st @
              [Match (cur st) (map (\<lambda>i. plb_get_char ops (nxt st + of_nat i)) [0..<j])
                 (fst (match ops (cur st)
                    (map (\<lambda>i. plb_get_char ops (nxt st + of_nat i)) [0..<j]) (fs st)))] @
              post)) \<and>
        (unat (lookup_last lim rq) + 2 < 2 ^ 32 \<and>
         unat (req_next rq) \<le> unat (lookup_last lim rq) + 1 \<longrightarrow>
           (\<exists>r. libfs_lookup (unat (lookup_last lim rq) + 3) ops lim h rq s = Some r))) \<and>
     (lookup_loop fuel ops lim h rq (lookup_last lim rq) (lookup_init ops rq s) = Some (Continue st) \<and>
      \<not> has_children ops (cur st) (fs st) \<and>
      req_lflag rq \<inter> {L_CREATE, L_LINK} \<noteq> {} \<and> is_directory ops (cur st) (fs st) \<and>
      0 < j \<and> j < NAME_MAX lim \<and>
      component_at (plb_get_char ops) (lookup_last lim rq) (nxt st) j \<and>
      \<not> nxt st + of_nat j \<le> lookup_last lim rq \<longrightarrow>
        libfs_lookup fuel ops lim h rq s =
          Some (finish True (out ops (link_new ops h rq
            (map (\<lambda>i. plb_get_char ops (nxt st + of_nat i)) [0..<j])
            (st\<lparr>nxt := nxt st + of_nat j\<rparr>)))))"
proof (intro conjI impI allI)
  let ?lst = "lookup_last lim rq" and ?g = "plb_get_char ops"
  {
    assume a: "descend n ops lim h rq ?lst (lookup_init ops rq s) = Some st \<and>
      has_children ops (cur st) (fs st) \<and> component_at ?g ?lst (nxt st) (NAME_MAX lim)"
    then have c: "collect ?g (NAME_MAX lim) ?lst (nxt st) [] = TooLong"
      using collect_too_long [of "[]" "NAME_MAX lim" "NAME_MAX lim" ?g ?lst "nxt st"] assms
      by simp
    from a assms have "nxt st \<le> ?lst"
      by (cases "NAME_MAX lim") (simp_all add: component_at_Suc)
    with a c have "lookup_loop (n + Suc k) ops lim h rq ?lst (lookup_init ops rq s) =
        Some (GotoOut (ipc_answer_0 ENAMETOOLONG st))"
      using lookup_loop_descend [of n ops lim h rq ?lst "lookup_init ops rq s" st "Suc k"]
      by (simp add: loop_body_def)
    then show "\<exists>r. libfs_lookup (n + Suc k) ops lim h rq s = Some r \<and> returned r \<and>
           final_trace r = trace st @ [Answer0 ENAMETOOLONG] @
             map NodePut (filter (\<lambda>n. n \<noteq> None) [par st, cur st, tmp st]) \<and>
           final_fs r = fs (out ops st)"
      by (simp add: libfs_lookup_def Let_def out_answer_0)
  }
  {
    assume a: "lookup_loop fuel ops lim h rq ?lst (lookup_init ops rq s) = Some (Continue st) \<and>
      \<not> has_children ops (cur st) (fs st) \<and>
      req_lflag rq \<inter> {L_CREATE, L_LINK} \<noteq> {} \<and> is_directory ops (cur st) (fs st) \<and>
      component_at ?g ?lst (nxt st) (NAME_MAX lim)"
    then have c: "collect_last ?g (NAME_MAX lim) ?lst (nxt st) [] = TooLong"
      using collect_last_too_long [of "[]" "NAME_MAX lim" "NAME_MAX lim" ?g ?lst "nxt st"] assms
      by simp
    from a assms have n: "nxt st \<le> ?lst"
      by (cases "NAME_MAX lim") (simp_all add: component_at_Suc)
    from a c have "excessive ops lim h rq ?lst st = GotoOut (ipc_answer_0 ENAMETOOLONG st)"
      by (simp add: excessive_def)
    from libfs_lookup_excess [OF _ n _ this] a
    show "\<exists>r. libfs_lookup fuel ops lim h rq s = Some r \<and> returned r \<and>
           final_trace r = trace st @ [Answer0 ENAMETOOLONG] @
             map NodePut (filter (\<lambda>n. n \<noteq> None) [par st, cur st, tmp st]) \<and>
           final_fs r = fs (out ops st)"
      by (simp add: out_answer_0)
  }
  {
    fix fuel' r
    assume a: "descend n ops lim h rq ?lst (lookup_init ops rq s) = Some st \<and>
      has_children ops (cur st) (fs st) \<and> 0 < j \<and> j < NAME_MAX lim \<and>
      component_at ?g ?lst (nxt st) j \<and>
      \<not> (nxt st + of_nat j \<le> ?lst \<and> ?g (nxt st + of_nat j) \<noteq> CHR ''/'')"
      and run: "libfs_lookup fuel' ops lim h rq s = Some r"
    from a have a': "descend n ops lim h rq ?lst (lookup_init ops rq s) = Some st"
      "has_children ops (cur st) (fs st)" "0 < j" "j < NAME_MAX lim"
      "component_at ?g ?lst (nxt st) j"
      "\<not> (nxt st + of_nat j \<le> ?lst \<and> ?g (nxt st + of_nat j) \<noteq> CHR ''/'')"
      by blast+
    let ?comp = "map (\<lambda>i. ?g (nxt st + of_nat i)) [0..<j]"
    obtain t s1 where m: "match ops (cur st) ?comp (fs st) = (t, s1)"
      by (cases "match ops (cur st) ?comp (fs st)")
    let ?st1 = "emit (Match (cur st) ?comp t)
                  (st\<lparr>nxt := nxt st + of_nat j + 1, tmp := t, fs := s1\<rparr>)"
    have c: "collect ?g (NAME_MAX lim) ?lst (nxt st) [] = Collected (nxt st + of_nat j) ?comp"
      using collect_short [of "[]" j "NAME_MAX lim" ?g ?lst "nxt st"] a' by simp
    have ne: "?comp \<noteq> []" using a'(3) by simp
    have "loop_body ops lim h rq ?lst st =
        (if t = None then GotoOut (handle_miss ops h rq ?lst ?comp ?st1)
         else Continue ((put_if ops (par ?st1) ?st1)\<lparr>par := cur ?st1, cur := t, tmp := None\<rparr>))"
      using c ne m by (simp add: loop_body_def Let_def del: upt_Suc)
    then have "\<exists>e. trace (case loop_body ops lim h rq ?lst st of
                          Continue x \<Rightarrow> x | GotoOut x \<Rightarrow> x | Abort x \<Rightarrow> x) =
        trace st @ [Match (cur st) ?comp t] @ e"
      using handle_miss_ending [of ops h rq ?lst ?comp ?st1]
      by (cases t) (auto simp del: upt_Suc)
    then obtain e where "trace (case loop_body ops lim h rq ?lst st of
                          Continue x \<Rightarrow> x | GotoOut x \<Rightarrow> x | Abort x \<Rightarrow> x) =
        trace st @ [Match (cur st) ?comp t] @ e" by blast
    from libfs_lookup_through_body [OF a'(1) component_at_first [OF a'(3,5)] a'(2) this run]
    show "\<exists>post. final_trace r = trace st @
              [Match (cur st) (map (\<lambda>i. ?g (nxt st + of_nat i)) [0..<j])
                 (fst (match ops (cur st) (map (\<lambda>i. ?g (nxt st + of_nat i)) [0..<j]) (fs st)))] @
              post"
      using m by simp
  }
  {
    assume "unat ?lst + 2 < 2 ^ 32 \<and> unat (req_next rq) \<le> unat ?lst + 1"
    then show "\<exists>r. libfs_lookup (unat ?lst + 3) ops lim h rq s = Some r"
      by (intro libfs_lookup_returns) simp_all
  }
  {
    assume a: "lookup_loop fuel ops lim h rq ?lst (lookup_init ops rq s) = Some (Continue st) \<and>
      \<not> has_children ops (cur st) (fs st) \<and>
      req_lflag rq \<inter> {L_CREATE, L_LINK} \<noteq> {} \<and> is_directory ops (cur st) (fs st) \<and>
      0 < j \<and> j < NAME_MAX lim \<and> component_at ?g ?lst (nxt st) j \<and>
      \<not> nxt st + of_nat j \<le> ?lst"
    then have a': "lookup_loop fuel ops lim h rq ?lst (lookup_init ops rq s) = Some (Continue st)"
      "\<not> has_children ops (cur st) (fs st)"
      "req_lflag rq \<inter> {L_CREATE, L_LINK} \<noteq> {}" "is_directory ops (cur st) (fs st)"
      "0 < j" "j < NAME_MAX lim" "component_at ?g ?lst (nxt st) j"
      "\<not> nxt st + of_nat j \<le> ?lst"
      by blast+
    let ?comp = "map (\<lambda>i. ?g (nxt st + of_nat i)) [0..<j]"
    have c: "collect_last ?g (NAME_MAX lim) ?lst (nxt st) [] =
        Collected (nxt st + of_nat j) ?comp"
      using collect_last_short [of "[]" j "NAME_MAX lim" ?g ?lst "nxt st"] a' by simp
    have ne: "?comp \<noteq> []" using a'(5) by simp
    have n: "nxt st \<le> ?lst" using component_at_first [OF a'(5,7)] .
    have "excessive ops lim h rq ?lst st =
        GotoOut (link_new ops h rq ?comp (st\<lparr>nxt := nxt st + of_nat j\<rparr>))"
      using c ne a'(3,4) by (simp add: excessive_def del: upt_Suc)
    then have "after_loop ops lim h rq ?lst st =
        finish True (out ops (link_new ops h rq ?comp (st\<lparr>nxt := nxt st + of_nat j\<rparr>)))"
      using n a'(2) by (simp add: after_loop_def)
    then show "libfs_lookup fuel ops lim h rq s =
          Some (finish True (out ops (link_new ops h rq
            (map (\<lambda>i. ?g (nxt st + of_nat i)) [0..<j]) (st\<lparr>nxt := nxt st + of_nat j\<rparr>))))"
      using a'(1) by (simp add: libfs_lookup_def Let_def)
  }
qed

theorem long_component_name_too_long_witness:
  "(\<exists>r. libfs_lookup (0 + Suc 0) (ram_ops ''/abcd000'') lim0 7 (mk_request 0 4 {L_CREATE} 0) ram0 =
          Some r \<and> returned r \<and>
        final_trace r = [RootGet 0 (Some 0), Answer0 ENAMETOOLONG, NodePut (Some 0)] \<and>
        final_fs r = ram0\<lparr>released := [Some 0]\<rparr>) \<and>
   (\<exists>r. libfs_lookup 1 (ram_ops ''/abcd000'') lim0 7 (mk_request 0 4 {L_CREATE} 0)
          (ram0\<lparr>dentries := []\<rparr>) = Some r \<and> returned r \<and>
        final_trace r = [RootGet 0 (Some 0), Answer0 ENAMETOOLONG, NodePut (Some 0)] \<and>
        final_fs r = ram0\<lparr>dentries := [], released := [Some 0]\<rparr>) \<and>
   (\<exists>r post. libfs_lookup 8 (ram_ops ''/abc/d00'') lim0 7 (mk_request 0 5 {} 0)
          (ram0\<lparr>dentries := [(0, ''abc'', 1)]\<rparr>) = Some r \<and>
        final_trace r = [RootGet 0 (Some 0)] @ [Match (Some 0) ''abc'' (Some 1)] @ post \<and>
        final_trace r = [RootGet 0 (Some 0), Match (Some 0) ''abc'' (Some 1), Answer0 ENOENT,
                         NodePut (Some 0), NodePut (Some 1)]) \<and>
   (\<exists>r. libfs_lookup 1 (ram_ops ''/abc0000'') lim0 7 (mk_request 0 3 {L_CREATE} 0)
          (ram0\<lparr>dentries := []\<rparr>) = Some r \<and> returned r \<and>
        final_trace r = [RootGet 0 (Some 0), Create 0 {L_CREATE} (Some 3),
                         Link (Some 0) (Some 3) ''abc'' EOK, Answer5 EOK 7 0 3 0 1,
                         NodePut (Some 3), NodePut (Some 0)])"
proof -
  let ?ops = "ram_ops ''/abcd000''" and ?rq = "mk_request 0 4 {L_CREATE} 0"
  let ?ops3 = "ram_ops ''/abc/d00''" and ?rq3 = "mk_request 0 5 {} 0"
  let ?ops4 = "ram_ops ''/abc0000''" and ?rq4 = "mk_request 0 3 {L_CREATE} 0"
  let ?s2 = "ram0\<lparr>dentries := []\<rparr>"
  let ?s3 = "ram0\<lparr>dentries := [(0, ''abc'', 1)]\<rparr>"
  let ?st = "\<lambda>s. \<lparr>nxt = 1, par = None, cur = Some 0, tmp = None, fs = s,
                  trace = [RootGet 0 (Some 0)]\<rparr>"
  let ?t3 = "[RootGet 0 (Some 0), Match (Some 0) ''abc'' (Some 1), Answer0 ENOENT,
              NodePut (Some 0), NodePut (Some 1)]"
  let ?t4 = "[RootGet 0 (Some 0), Create 0 {L_CREATE} (Some 3),
              Link (Some 0) (Some 3) ''abc'' EOK, Answer5 EOK 7 0 3 0 1,
              NodePut (Some 3), NodePut (Some 0)]"
  have N: "0 < NAME_MAX lim0" by (simp add: lim0_def)
  have a: "descend 0 ?ops lim0 7 ?rq (lookup_last lim0 ?rq) (lookup_init ?ops ?rq ram0) =
             Some (?st ram0)"
    "has_children ?ops (cur (?st ram0)) (fs (?st ram0))"
    "component_at (plb_get_char ?ops) (lookup_last lim0 ?rq) (nxt (?st ram0)) (NAME_MAX lim0)"
    by code_simp+
  have b: "lookup_loop 1 ?ops lim0 7 ?rq (lookup_last lim0 ?rq) (lookup_init ?ops ?rq ?s2) =
             Some (Continue (?st ?s2))"
    "\<not> has_children ?ops (cur (?st ?s2)) (fs (?st ?s2))"
    "req_lflag ?rq \<inter> {L_CREATE, L_LINK} \<noteq> {}"
    "is_directory ?ops (cur (?st ?s2)) (fs (?st ?s2))"
    "component_at (plb_get_char ?ops) (lookup_last lim0 ?rq) (nxt (?st ?s2)) (NAME_MAX lim0)"
    by code_simp+
  have c: "descend 0 ?ops3 lim0 7 ?rq3 (lookup_last lim0 ?rq3) (lookup_init ?ops3 ?rq3 ?s3) =
             Some (?st ?s3)"
    "has_children ?ops3 (cur (?st ?s3)) (fs (?st ?s3))"
    "0 < (3 :: nat)" "3 < NAME_MAX lim0"
    "component_at (plb_get_char ?ops3) (lookup_last lim0 ?rq3) (nxt (?st ?s3)) 3"
    "\<not> (nxt (?st ?s3) + of_nat 3 \<le> lookup_last lim0 ?rq3 \<and>
        plb_get_char ?ops3 (nxt (?st ?s3) + of_nat 3) \<noteq> CHR ''/'')"
    by code_simp+
  have c': "unat (lookup_last lim0 ?rq3) + 2 < 2 ^ 32"
    "unat (req_next ?rq3) \<le> unat (lookup_last lim0 ?rq3) + 1"
    "unat (lookup_last lim0 ?rq3) + 3 = 8"
    by (simp_all add: lookup_last_def mk_request_def)
  have d: "lookup_loop 1 ?ops4 lim0 7 ?rq4 (lookup_last lim0 ?rq4) (lookup_init ?ops4 ?rq4 ?s2) =
             Some (Continue (?st ?s2))"
    "\<not> has_children ?ops4 (cur (?st ?s2)) (fs (?st ?s2))"
    "req_lflag ?rq4 \<inter> {L_CREATE, L_LINK} \<noteq> {}"
    "is_directory ?ops4 (cur (?st ?s2)) (fs (?st ?s2))"
    "0 < (3 :: nat)" "3 < NAME_MAX lim0"
    "component_at (plb_get_char ?ops4) (lookup_last lim0 ?rq4) (nxt (?st ?s2)) 3"
    "\<not> nxt (?st ?s2) + of_nat 3 \<le> lookup_last lim0 ?rq4"
    by code_simp+
  have o: "fs (out ?ops (?st ram0)) = ram0\<lparr>released := [Some 0]\<rparr>"
    "fs (out ?ops (?st ?s2)) = ?s2\<lparr>released := [Some 0]\<rparr>"
    by code_simp+
  have m: "map (\<lambda>i. plb_get_char ?ops3 (nxt (?st ?s3) + of_nat i)) [0..<3] = ''abc''"
    "map (\<lambda>i. plb_get_char ?ops4 (nxt (?st ?s2) + of_nat i)) [0..<3] = ''abc''"
    "fst (match ?ops3 (cur (?st ?s3)) ''abc'' (fs (?st ?s3))) = Some 1"
    by code_simp+
  have run3: "map_option final_trace (libfs_lookup 8 ?ops3 lim0 7 ?rq3 ?s3) = Some ?t3"
    by code_simp
  have e4: "final_trace (finish True (out ?ops4 (link_new ?ops4 7 ?rq4 ''abc''
      ((?st ?s2)\<lparr>nxt := nxt (?st ?s2) + of_nat 3\<rparr>)))) = ?t4"
    by code_simp
  have W1: "\<exists>r. libfs_lookup (0 + Suc 0) ?ops lim0 7 ?rq ram0 = Some r \<and> returned r \<and>
        final_trace r = [RootGet 0 (Some 0), Answer0 ENAMETOOLONG, NodePut (Some 0)] \<and>
        final_fs r = ram0\<lparr>released := [Some 0]\<rparr>"
    using long_component_name_too_long [OF N, where n = 0 and ops = ?ops
        and h = 7 and rq = ?rq and s = ram0 and st = "?st ram0" and k = 0, THEN conjunct1] a o(1)
    by simp
  have W2: "\<exists>r. libfs_lookup 1 ?ops lim0 7 ?rq ?s2 = Some r \<and> returned r \<and>
        final_trace r = [RootGet 0 (Some 0), Answer0 ENAMETOOLONG, NodePut (Some 0)] \<and>
        final_fs r = ?s2\<lparr>released := [Some 0]\<rparr>"
    using long_component_name_too_long [OF N, where fuel = 1
        and ops = ?ops and h = 7 and rq = ?rq and s = ?s2 and st = "?st ?s2",
        THEN conjunct2, THEN conjunct1] b o(2)
    by simp
  note S = long_component_name_too_long [OF N, where n = 0 and ops = ?ops3 and h = 7
      and rq = ?rq3 and s = ?s3 and st = "?st ?s3" and j = 3,
      THEN conjunct2, THEN conjunct2, THEN conjunct1, rule_format, OF conjI [OF c(1) conjI [OF c(2)
        conjI [OF c(3) conjI [OF c(4) conjI [OF c(5) c(6)]]]]]]
  from S [THEN conjunct2] c' obtain r where r: "libfs_lookup 8 ?ops3 lim0 7 ?rq3 ?s3 = Some r"
    by auto
  from S [THEN conjunct1, rule_format, OF r] obtain post where
    "final_trace r = trace (?st ?s3) @
       [Match (cur (?st ?s3)) (map (\<lambda>i. plb_get_char ?ops3 (nxt (?st ?s3) + of_nat i)) [0..<3])
          (fst (match ?ops3 (cur (?st ?s3))
             (map (\<lambda>i. plb_get_char ?ops3 (nxt (?st ?s3) + of_nat i)) [0..<3]) (fs (?st ?s3))))] @
       post"
    by blast
  then have p: "final_trace r = [RootGet 0 (Some 0)] @ [Match (Some 0) ''abc'' (Some 1)] @ post"
    unfolding m by simp
  from r run3 have t: "final_trace r = ?t3" by simp
  have S1: "\<exists>r post. libfs_lookup 8 ?ops3 lim0 7 ?rq3 ?s3 = Some r \<and>
        final_trace r = [RootGet 0 (Some 0)] @ [Match (Some 0) ''abc'' (Some 1)] @ post \<and>
        final_trace r = ?t3"
    using r p t by blast
  have "libfs_lookup 1 ?ops4 lim0 7 ?rq4 ?s2 =
      Some (finish True (out ?ops4 (link_new ?ops4 7 ?rq4
        (map (\<lambda>i. plb_get_char ?ops4 (nxt (?st ?s2) + of_nat i)) [0..<3])
        ((?st ?s2)\<lparr>nxt := nxt (?st ?s2) + of_nat 3\<rparr>))))"
    by (rule long_component_name_too_long [OF N, where fuel = 1 and ops = ?ops4 and h = 7
      and rq = ?rq4 and s = ?s2 and st = "?st ?s2" and j = 3,
      THEN conjunct2, THEN conjunct2, THEN conjunct2, rule_format,
      OF conjI [OF d(1) conjI [OF d(2) conjI [OF d(3) conjI [OF d(4) conjI [OF d(5)
        conjI [OF d(6) conjI [OF d(7) d(8)]]]]]]]])
  then have "libfs_lookup 1 ?ops4 lim0 7 ?rq4 ?s2 =
      Some (finish True (out ?ops4 (link_new ?ops4 7 ?rq4 ''abc''
        ((?st ?s2)\<lparr>nxt := nxt (?st ?s2) + of_nat 3\<rparr>))))"
    unfolding m .
  moreover have "map_option final_trace (libfs_lookup 1 ?ops4 lim0 7 ?rq4 ?s2) = Some ?t4"
    by code_simp
  ultimately have S2: "\<exists>r. libfs_lookup 1 ?ops4 lim0 7 ?rq4 ?s2 = Some r \<and> returned r \<and>
      final_trace r = ?t4"
    using e4 by simp
  show ?thesis using W1 W2 S1 S2 by blast
qed

subsection \<open>The number of answers\<close>

text \<open>
  A call that returns has sent one answer, or two: the triplet followed by
  \<^verbatim>\<open>ENOENT\<close>, which only the \<^verbatim>\<open>L_PARENT\<close> branch of the miss handling produces.
\<close>

lemma ending_replies:
  "ending rq t \<Longrightarrow>
   length (replies t) = 1 \<or>
   L_PARENT \<in> req_lflag rq \<and> (\<exists>a b c d e. replies t = [Answer5 EOK a b c d e, Answer0 ENOENT])"
  unfolding ending_def obtain_event_def
  by (elim disjE exE conjE) (auto split: if_splits)

lemma libfs_lookup_replies:
  assumes "libfs_lookup fuel ops lim h rq s = Some r" and "returned r"
  shows "length (replies (final_trace r)) = 1 \<or>
    L_PARENT \<in> req_lflag rq \<and>
    (\<exists>a b c d e. replies (final_trace r) = [Answer5 EOK a b c d e, Answer0 ENOENT])"
proof -
  from libfs_lookup_trace [OF assms] obtain w t w' where
    "final_trace r = w @ t @ w'" "list_all walk_event w" "ending rq t" "list_all walk_event w'"
    by blast
  then show ?thesis
    using ending_replies [of rq t] walk_event_not(4) by simp
qed

end
